theory Spec2Isabelle
  imports Main "HOL-Library.Word"
begin

unbundle bit_operations_syntax

section \<open>Machine types and the optimisation-control primitives\<close>

text \<open>
  The kernels of \<^verbatim>\<open>cpp-benches.cpp\<close> compute on \<^verbatim>\<open>uint64_t\<close>, \<^verbatim>\<open>size_t\<close>, \<^verbatim>\<open>uint32_t\<close>,
  \<^verbatim>\<open>uint8_t\<close>, \<^verbatim>\<open>int\<close> and \<^verbatim>\<open>long\<close> on an LP64 target. They are words of the matching width:
  unsigned arithmetic wraps, \<open>unat\<close> reads a word as unsigned and \<open>sint\<close> as two's
  complement. The overflow of the signed loop counter of the add chain is an error.
\<close>

type_synonym u8 = "8 word"
type_synonym u32 = "32 word"
type_synonym u64 = "64 word"

text \<open>What a kernel can do instead of returning a value.\<close>

datatype error = DivByZero | OutOfBounds | NullDeref | AssertFailed | BadAlloc | SignedOverflow

text \<open>
  Modelled from the spec: \<^verbatim>\<open>opt_control::modify\<close>, \<^verbatim>\<open>opt_control::sink\<close> and
  \<^verbatim>\<open>opt_control::sink_ptr\<close> are declared in \<^verbatim>\<open>opt-control.hpp\<close>, which is not among the
  sources. The specification describes them as control hooks with no runtime effect: the
  value handed to \<open>modify\<close> is left as it is, and \<open>sink\<close> consumes a value without producing
  one. \<open>sink_ptr\<close> changes no value the kernels compute and does not appear below.

  Every kernel has the signature \<^verbatim>\<open>long kernel(uint64_t iters, void *arg)\<close>. Where a kernel
  does not read \<open>arg\<close>, the argument is left out.
\<close>

definition modify :: "'a \<Rightarrow> 'a" where
  "modify x = x"

definition sink :: "'a \<Rightarrow> unit" where
  "sink x = ()"

section \<open>The portable add chain\<close>

text \<open>
  \<^verbatim>\<open>portable_add_chain\<close> works on \<^verbatim>\<open>int64_t iters = itersu\<close>: the 64 bits of the argument read
  as two's complement. \<^verbatim>\<open>--iters\<close> on an \<^verbatim>\<open>int64_t\<close> that holds \<open>INT64_MIN = - 2 ^ 63\<close> is a
  signed overflow, which is undefined: here it is an error, not a wrap-around.
\<close>

definition dec_int64 :: "u64 \<Rightarrow> error + u64" where
  "dec_int64 iters = (if sint iters = - (2 ^ 63) then Inl SignedOverflow else Inr (iters - 1))"

text \<open>
  The body of the \<^verbatim>\<open>do { ... } while (iters != 0)\<close> loop: four times \<^verbatim>\<open>modify(iters); --iters;\<close>.
\<close>

definition add_chain_body :: "u64 \<Rightarrow> error + u64" where
  "add_chain_body iters =
     (case dec_int64 (modify iters) of
        Inl e \<Rightarrow> Inl e
      | Inr iters \<Rightarrow>
     (case dec_int64 (modify iters) of
        Inl e \<Rightarrow> Inl e
      | Inr iters \<Rightarrow>
     (case dec_int64 (modify iters) of
        Inl e \<Rightarrow> Inl e
      | Inr iters \<Rightarrow> dec_int64 (modify iters))))"

text \<open>
  The loop. Every pass that does not overflow lowers the signed counter by four, so the
  loop always ends: with the counter at 0, or in the overflow at \<open>INT64_MIN\<close>.
\<close>

function add_chain_loop :: "u64 \<Rightarrow> error + u64" where
  "add_chain_loop iters =
     (case add_chain_body iters of
        Inl e \<Rightarrow> Inl e
      | Inr iters \<Rightarrow> if iters \<noteq> 0 then add_chain_loop iters else Inr iters)"
  by pat_completeness auto
termination
proof (relation "measure (\<lambda>iters. nat (sint iters + 2 ^ 63))")
  fix iters x :: u64
  assume b: "add_chain_body iters = Inr x"
  have dec: "sint b = sint a - 1" if "dec_int64 a = Inr b" for a b :: u64
  proof -
    from that have a: "sint a \<noteq> - (2 ^ 63)" and b: "b = a - 1"
      by (auto simp: dec_int64_def split: if_splits)
    have "- (2 ^ 63) \<le> sint a" "sint a < 2 ^ 63"
      using sint_ge [of a] sint_lt [of a] by simp_all
    with a have "- (2 ^ 63) \<le> sint a - 1" "sint a - 1 < 2 ^ 63"
      by simp_all
    then have "signed_take_bit 63 (sint a - 1) = sint a - 1"
      by (rule signed_take_bit_int_eq_self)
    then have "sint (a - 1) = sint a - 1"
      by (simp add: sint_word_diff)
    then show ?thesis by (simp add: b)
  qed
  from b obtain y1 y2 y3 where "dec_int64 iters = Inr y1" "dec_int64 y1 = Inr y2"
    "dec_int64 y2 = Inr y3" "dec_int64 y3 = Inr x"
    by (auto simp: add_chain_body_def modify_def split: sum.splits)
  then have "sint x = sint iters - 4"
    by (simp add: dec)
  moreover have "- (2 ^ 63) \<le> sint x"
    using sint_ge [of x] by simp
  ultimately show "(x, iters) \<in> measure (\<lambda>iters. nat (sint iters + 2 ^ 63))"
    by simp
qed simp

declare add_chain_loop.simps [simp del]

text \<open>The result is \<^verbatim>\<open>iters\<close> converted to \<^verbatim>\<open>long\<close>.\<close>

definition portable_add_chain :: "u64 \<Rightarrow> error + int" where
  "portable_add_chain itersu = (let iters = itersu in map_sum id sint (add_chain_loop iters))"

section \<open>The division kernels\<close>

text \<open>
  \<^verbatim>\<open>typedef uint64_t (div_func)(uint64_t)\<close>. A division by zero traps, so a division
  function returns an error or a quotient.
\<close>

type_synonym div_func = "u64 \<Rightarrow> error + u64"

definition no_inline :: "div_func \<Rightarrow> div_func" where
  "no_inline F a = F a"

text \<open>
  \<^verbatim>\<open>0x12345678u / a\<close>: the 32-bit constant is converted to \<^verbatim>\<open>uint64_t\<close> and the division
  is a 64-bit unsigned one.
\<close>

definition div32_64 :: div_func where
  "div32_64 a = (if a = 0 then Inl DivByZero else Inr (0x12345678 div a))"

definition div64_64 :: div_func where
  "div64_64 a = (if a = 0 then Inl DivByZero else Inr (0x1234567812345678 div a))"

text \<open>
  The x86 instruction \<^verbatim>\<open>div r64\<close>: the 128-bit dividend \<open>high * 2 ^ 64 + low\<close> divided by the
  operand; quotient and remainder are returned in \<open>low\<close> and \<open>high\<close>. It raises a divide
  error when the operand is zero or the quotient does not fit in 64 bits.
\<close>

definition x86_div :: "u64 \<Rightarrow> u64 \<Rightarrow> u64 \<Rightarrow> error + (u64 \<times> u64)" where
  "x86_div high low a =
     (let dividend = unat high * 2 ^ 64 + unat low
      in if a = 0 \<or> 2 ^ 64 \<le> dividend div unat a then Inl DivByZero
         else Inr (of_nat (dividend mod unat a), of_nat (dividend div unat a)))"

text \<open>
  \<^verbatim>\<open>div128_64\<close> depends on the build flag \<^verbatim>\<open>UARCH_BENCH_PORTABLE\<close>, the first argument here.
\<close>

definition div128_64 :: "bool \<Rightarrow> div_func" where
  "div128_64 portable a =
     (if \<not> portable then
        (let high = 123; low = 2; a = a OR 0xF234567890123456
         in case x86_div high low a of Inl e \<Rightarrow> Inl e | Inr (high, low) \<Rightarrow> Inr low)
      else Inr 1)"

text \<open>
  Modelled from the spec: \<^verbatim>\<open>always_zero\<close> is declared in a header that is not among the
  sources. The specification calls it a runtime-computed value known to be zero but not
  provably so at compile time.
\<close>

definition always_zero :: u64 where
  "always_zero = 0"

text \<open>
  The loop of \<^verbatim>\<open>div64_templ\<close>, \<^verbatim>\<open>for (uint64_t k = 1; k <= iters; k++)\<close>, on its variables
  \<open>k\<close> and \<open>sum\<close> (here \<open>sumv\<close>). \<open>div64_divisor\<close> is the value of \<open>d\<close> handed to \<open>F\<close>. The counter wraps
  around, so the loop need not end: \<open>None\<close> is "does not return", \<open>Some (Inl e)\<close> a trap.
\<close>

definition div64_divisor :: "bool \<Rightarrow> u64 \<Rightarrow> u64 \<Rightarrow> u64 \<Rightarrow> u64" where
  "div64_divisor forcedep zero k sumv =
     (let d = k in if forcedep then d + (sumv AND zero) else d)"

partial_function (option) div64_loop ::
  "div_func \<Rightarrow> bool \<Rightarrow> u64 \<Rightarrow> u64 \<Rightarrow> u64 \<Rightarrow> u64 \<Rightarrow> (error + u64) option" where
  "div64_loop F forcedep zero iters k sumv =
     (if k \<le> iters then
        (case F (div64_divisor forcedep zero k sumv) of
           Inl e \<Rightarrow> Some (Inl e)
         | Inr q \<Rightarrow> div64_loop F forcedep zero iters (k + 1) (sumv + q))
      else Some (Inr sumv))"

text \<open>The result is \<^verbatim>\<open>(long)sum\<close>: the same 64 bits read as two's complement.\<close>

definition div64_templ :: "div_func \<Rightarrow> bool \<Rightarrow> u64 \<Rightarrow> (error + int) option" where
  "div64_templ F forcedep iters =
     map_option (map_sum id sint) (div64_loop F forcedep always_zero iters 1 0)"

text \<open>
  Modelled from the spec: the list \<^verbatim>\<open>DIV_SPEC_X\<close> of suffixes that \<^verbatim>\<open>MAKE_DIV_BENCHES\<close> is
  expanded on is defined in \<^verbatim>\<open>cpp-benches.hpp\<close>, which is not among the sources. The
  specification names the dividend widths 32, 64 and 128 bits, which are the three
  division functions of the source.
\<close>

datatype div_spec = S32_64 | S64_64 | S128_64

fun div_of :: "bool \<Rightarrow> div_spec \<Rightarrow> div_func" where
  "div_of portable S32_64 = div32_64"
| "div_of portable S64_64 = div64_64"
| "div_of portable S128_64 = div128_64 portable"

definition div_lat_inline :: "bool \<Rightarrow> div_spec \<Rightarrow> u64 \<Rightarrow> (error + int) option" where
  "div_lat_inline portable suffix iters = div64_templ (div_of portable suffix) True iters"

definition div_tput_inline :: "bool \<Rightarrow> div_spec \<Rightarrow> u64 \<Rightarrow> (error + int) option" where
  "div_tput_inline portable suffix iters = div64_templ (div_of portable suffix) False iters"

definition div_lat_noinline :: "bool \<Rightarrow> div_spec \<Rightarrow> u64 \<Rightarrow> (error + int) option" where
  "div_lat_noinline portable suffix iters =
     div64_templ (no_inline (div_of portable suffix)) True iters"

definition div_tput_noinline :: "bool \<Rightarrow> div_spec \<Rightarrow> u64 \<Rightarrow> (error + int) option" where
  "div_tput_noinline portable suffix iters =
     div64_templ (no_inline (div_of portable suffix)) False iters"

text \<open>
  The states \<open>(k, sum)\<close> in which the loop of \<^verbatim>\<open>div64_templ\<close> evaluates its condition: the
  initial one, and the one after each pass that did not trap.
\<close>

inductive div64_state :: "div_func \<Rightarrow> bool \<Rightarrow> u64 \<Rightarrow> u64 \<Rightarrow> u64 \<times> u64 \<Rightarrow> bool"
  for F :: div_func and forcedep :: bool and zero :: u64 and iters :: u64 where
  div64_init: "div64_state F forcedep zero iters (1, 0)"
| div64_pass: "div64_state F forcedep zero iters (k, sumv) \<Longrightarrow> k \<le> iters \<Longrightarrow>
     F (div64_divisor forcedep zero k sumv) = Inr q \<Longrightarrow>
     div64_state F forcedep zero iters (k + 1, sumv + q)"

code_pred div64_state .

section \<open>The strided stores\<close>

text \<open>
  Modelled from the spec: the struct \<^verbatim>\<open>mem_args\<close> is declared in \<^verbatim>\<open>cpp-benches.hpp\<close>, which is
  not among the sources. The specification gives the strided-store argument as a start
  address, a stride and a wraparound bit-mask; the kernel reads them as \<^verbatim>\<open>args.region\<close>
  (a \<^verbatim>\<open>char *\<close>), \<^verbatim>\<open>args.stride\<close> and \<^verbatim>\<open>args.mask\<close>.
\<close>

record mem_args =
  region :: u64
  stride :: u64
  mask :: u64

text \<open>
  Memory is a byte at every 64-bit address. Next to it the state keeps, in order, the
  addresses the kernel has stored to: this list is not in the program, it records what
  the program does.
\<close>

type_synonym memory = "u64 \<Rightarrow> u8"

record machine =
  mem :: memory
  stores :: "u64 list"

text \<open>\<^verbatim>\<open>*(T *)base = 0\<close> for a type \<open>T\<close> of \<open>w\<close> bytes: the bytes \<open>base, ..., base + w - 1\<close> become 0.\<close>

definition store_zero :: "nat \<Rightarrow> u64 \<Rightarrow> machine \<Rightarrow> machine" where
  "store_zero w base s =
     \<lparr>mem = (\<lambda>x. if unat (x - base) < w then 0 else mem s x), stores = stores s @ [base]\<rparr>"

text \<open>
  One pass of the loop of \<^verbatim>\<open>strided_stores\<close> with counter \<open>i\<close>. In C, \<^verbatim>\<open>i * args.stride & mask\<close>
  is \<^verbatim>\<open>(i * args.stride) & mask\<close>.
\<close>

definition strided_pass :: "nat \<Rightarrow> mem_args \<Rightarrow> u64 \<Rightarrow> machine \<Rightarrow> machine" where
  "strided_pass w args i s =
     (let offset = (i * stride args) AND mask args;
          base = region args + offset;
          s = store_zero w base s;
          base = base + stride args;
          s = store_zero w base s;
          base = base + stride args;
          s = store_zero w base s;
          base = base + stride args;
          s = store_zero w base s
      in s)"

text \<open>
  \<^verbatim>\<open>for (uint64_t i = 0; i < iters; i += 4)\<close>. For \<open>iters > 2 ^ 64 - 4\<close> the counter wraps
  around before it reaches \<open>iters\<close> and the loop does not end (\<open>None\<close>).
\<close>

partial_function (option) strided_loop ::
  "nat \<Rightarrow> mem_args \<Rightarrow> u64 \<Rightarrow> u64 \<Rightarrow> machine \<Rightarrow> machine option" where
  "strided_loop w args iters i s =
     (if i < iters then strided_loop w args iters (i + 4) (strided_pass w args i s)
      else Some s)"

text \<open>
  The kernel returns \<^verbatim>\<open>(long)args.region[0]\<close>, a \<^verbatim>\<open>char\<close> (signed on the x86-64 target)
  converted to \<^verbatim>\<open>long\<close>, and leaves the memory it has written.
\<close>

definition strided_stores :: "nat \<Rightarrow> u64 \<Rightarrow> mem_args \<Rightarrow> machine \<Rightarrow> (int \<times> machine) option" where
  "strided_stores w iters args s =
     (case strided_loop w args iters 0 s of
        None \<Rightarrow> None
      | Some s' \<Rightarrow> Some (sint (mem s' (region args)), s'))"

definition strided_stores_1byte :: "u64 \<Rightarrow> mem_args \<Rightarrow> machine \<Rightarrow> (int \<times> machine) option" where
  "strided_stores_1byte iters args s = strided_stores 1 iters args s"

definition strided_stores_4byte :: "u64 \<Rightarrow> mem_args \<Rightarrow> machine \<Rightarrow> (int \<times> machine) option" where
  "strided_stores_4byte iters args s = strided_stores 4 iters args s"

definition strided_stores_8byte :: "u64 \<Rightarrow> mem_args \<Rightarrow> machine \<Rightarrow> (int \<times> machine) option" where
  "strided_stores_8byte iters args s = strided_stores 8 iters args s"

text \<open>
  The states \<open>(i, s)\<close> in which the loop of \<^verbatim>\<open>strided_stores\<close>, started in \<open>s0\<close>, evaluates
  its condition. They exist whether or not the loop ends.
\<close>

inductive strided_state :: "nat \<Rightarrow> mem_args \<Rightarrow> u64 \<Rightarrow> machine \<Rightarrow> u64 \<times> machine \<Rightarrow> bool"
  for w :: nat and args :: mem_args and iters :: u64 and s0 :: machine where
  strided_init: "strided_state w args iters s0 (0, s0)"
| strided_next: "strided_state w args iters s0 (i, s) \<Longrightarrow> i < iters \<Longrightarrow>
     strided_state w args iters s0 (i + 4, strided_pass w args i s)"

code_pred strided_state .

section \<open>Arrays\<close>

text \<open>
  A C array is the list of its elements; the kernels get a pointer to its first element
  and index it with a \<^verbatim>\<open>size_t\<close>. Reading outside the array is an error. The element with
  index \<open>i\<close> of an array of \<open>esz\<close>-byte elements lies \<open>i * esz\<close> bytes after the start, so
  no array of a 64-bit address space has an element with \<open>i * esz \<ge> 2 ^ 64\<close>.
\<close>

definition rd :: "nat \<Rightarrow> 'a list \<Rightarrow> u64 \<Rightarrow> error + 'a" where
  "rd esz xs i =
     (if unat i < length xs \<and> unat i * esz < 2 ^ 64 then Inr (xs ! unat i)
      else Inl OutOfBounds)"

section \<open>The table lookup\<close>

text \<open>\<^verbatim>\<open>uint8_t crc8_table[256] = {}\<close>: 256 zero bytes.\<close>

definition crc8_table :: "u8 list" where
  "crc8_table = replicate 256 0"

text \<open>
  The loop of \<^verbatim>\<open>crc8\<close>, \<^verbatim>\<open>while (data < end) crc = crc8_table[crc ^ *data++]\<close>. The pointers
  \<open>data\<close> and \<open>end\<close> (here \<open>endp\<close>) are indices into the buffer \<open>buf\<close> they point into. \<open>crc\<close> is a
  \<^verbatim>\<open>uint32_t\<close>, the byte read is converted to it, and the table entry is converted back.
\<close>

function crc8_loop :: "u8 list \<Rightarrow> u64 \<Rightarrow> u64 \<Rightarrow> u32 \<Rightarrow> error + u32" where
  "crc8_loop buf data endp crc =
     (if data < endp then
        (case rd 1 buf data of
           Inl e \<Rightarrow> Inl e
         | Inr b \<Rightarrow>
             (case rd 1 crc8_table (ucast (crc XOR ucast b)) of
                Inl e \<Rightarrow> Inl e
              | Inr t \<Rightarrow> crc8_loop buf (data + 1) endp (ucast t)))
      else Inr crc)"
  by pat_completeness auto
termination
proof (relation "measure (\<lambda>(buf, data, endp, crc). unat endp - unat data)")
  fix buf :: "u8 list" and data endp :: u64 and crc :: u32 and b t :: u8
  assume "data < endp"
  then have "unat (data + 1) = unat data + 1" and "unat data < unat endp"
    by unat_arith+
  then show "((buf, data + 1, endp, (ucast t :: u32)), (buf, data, endp, crc))
      \<in> measure (\<lambda>(buf, data, endp, crc). unat endp - unat data)"
    by simp
qed simp

declare crc8_loop.simps [simp del]

definition crc8 :: "u32 \<Rightarrow> u8 list \<Rightarrow> u64 \<Rightarrow> error + u32" where
  "crc8 crc data len = (let crc = crc AND 0xff; endp = 0 + len in crc8_loop data 0 endp crc)"

text \<open>
  \<^verbatim>\<open>crc8_bench\<close>: \<^verbatim>\<open>do { crc = crc8(crc, buf, sizeof(buf)); } while (--iters != 0)\<close>. The
  local array \<^verbatim>\<open>uint8_t buf[4096]\<close> is not initialised: its content \<open>buf\<close> is whatever the
  stack holds, an argument here.
\<close>

function crc8_bench_loop :: "u8 list \<Rightarrow> u64 \<Rightarrow> u32 \<Rightarrow> error + u32" where
  "crc8_bench_loop buf iters crc =
     (case crc8 crc buf 4096 of
        Inl e \<Rightarrow> Inl e
      | Inr crc \<Rightarrow>
          (let iters = iters - 1
           in if iters \<noteq> 0 then crc8_bench_loop buf iters crc else Inr crc))"
  by pat_completeness auto
termination
proof (relation "measure (\<lambda>(buf, iters, crc). unat (iters - 1))")
  fix buf :: "u8 list" and iters x :: u64 and crc y :: u32
  assume x: "x = iters - 1" and "x \<noteq> 0"
  then have "unat (x - 1) < unat x"
    by unat_arith
  then show "((buf, x, y), (buf, iters, crc)) \<in> measure (\<lambda>(buf, iters, crc). unat (iters - 1))"
    by (simp add: x)
qed simp

declare crc8_bench_loop.simps [simp del]

text \<open>The result is \<^verbatim>\<open>crc\<close>, a \<^verbatim>\<open>uint32_t\<close>, converted to \<^verbatim>\<open>long\<close>.\<close>

definition crc8_bench :: "u64 \<Rightarrow> u8 list \<Rightarrow> error + int" where
  "crc8_bench iters buf = map_sum id uint (let crc = 0 in crc8_bench_loop buf iters crc)"

section \<open>The multiply chains and the halves summation\<close>

text \<open>
  \<^verbatim>\<open>mul_chain\<close>: \<^verbatim>\<open>for (size_t i = 0; i < len; i++) { uint32_t x = data[i]; product *= x; }\<close>.
  \<open>data\<close> is the array the pointer points to; \<open>len\<close> is the count the caller passes,
  which need not be the size of the array.
\<close>

function mul_chain_loop :: "u32 list \<Rightarrow> u64 \<Rightarrow> u64 \<Rightarrow> u32 \<Rightarrow> error + u32" where
  "mul_chain_loop data len i product =
     (if i < len then
        (case rd 4 data i of
           Inl e \<Rightarrow> Inl e
         | Inr x \<Rightarrow> mul_chain_loop data len (i + 1) (product * x))
      else Inr product)"
  by pat_completeness auto
termination
proof (relation "measure (\<lambda>(data, len, i, product). unat len - unat i)")
  fix data :: "u32 list" and len i :: u64 and product x :: u32
  assume "i < len"
  then have "unat (i + 1) = unat i + 1" and "unat i < unat len"
    by unat_arith+
  then show "((data, len, i + 1, product * x), (data, len, i, product))
      \<in> measure (\<lambda>(data, len, i, product). unat len - unat i)"
    by simp
qed simp

declare mul_chain_loop.simps [simp del]

definition mul_chain :: "u32 list \<Rightarrow> u64 \<Rightarrow> u32 \<Rightarrow> error + u32" where
  "mul_chain data len m =
     (let product = 1
      in case mul_chain_loop data len 0 product of
           Inl e \<Rightarrow> Inl e
         | Inr product \<Rightarrow> (let u = sink product in Inr product))"

text \<open>
  \<^verbatim>\<open>mul_chain4\<close>: \<^verbatim>\<open>for (size_t i = 0; i < len; i += 4)\<close>, each pass reading
  \<^verbatim>\<open>data[i + 0]\<close> to \<^verbatim>\<open>data[i + 3]\<close>.
\<close>

function mul_chain4_loop ::
  "u32 list \<Rightarrow> u64 \<Rightarrow> u64 \<Rightarrow> u32 \<Rightarrow> u32 \<Rightarrow> u32 \<Rightarrow> u32 \<Rightarrow> error + (u32 \<times> u32 \<times> u32 \<times> u32)" where
  "mul_chain4_loop data len i p1 p2 p3 p4 =
     (if i < len then
        (case rd 4 data (i + 0) of
           Inl e \<Rightarrow> Inl e
         | Inr x0 \<Rightarrow>
        (case rd 4 data (i + 1) of
           Inl e \<Rightarrow> Inl e
         | Inr x1 \<Rightarrow>
        (case rd 4 data (i + 2) of
           Inl e \<Rightarrow> Inl e
         | Inr x2 \<Rightarrow>
        (case rd 4 data (i + 3) of
           Inl e \<Rightarrow> Inl e
         | Inr x3 \<Rightarrow>
             mul_chain4_loop data len (i + 4) (p1 * x0) (p2 * x1) (p3 * x2) (p4 * x3)))))
      else Inr (p1, p2, p3, p4))"
  by pat_completeness auto
termination
proof (relation "measure (\<lambda>(data, len, i, p1, p2, p3, p4). 2 ^ 64 - unat i)")
  fix data :: "u32 list" and len i :: u64 and p1 p2 p3 p4 x0 x1 x2 x3 :: u32
  assume "rd 4 data (i + 0) = Inr x0"
  then have b: "unat i * 4 < 2 ^ 64"
    by (simp add: rd_def split: if_splits)
  then have "unat (i + 4) = unat i + 4"
    by (simp add: unat_word_ariths)
  then show "((data, len, i + 4, p1 * x0, p2 * x1, p3 * x2, p4 * x3), (data, len, i, p1, p2, p3, p4))
      \<in> measure (\<lambda>(data, len, i, p1, p2, p3, p4). 2 ^ 64 - unat i)"
    using b by simp
qed simp

declare mul_chain4_loop.simps [simp del]

definition mul_chain4 :: "u32 list \<Rightarrow> u64 \<Rightarrow> u32 \<Rightarrow> error + u32" where
  "mul_chain4 data len m =
     (let p1 = 1; p2 = 1; p3 = 1; p4 = 1
      in case mul_chain4_loop data len 0 p1 p2 p3 p4 of
           Inl e \<Rightarrow> Inl e
         | Inr (p1, p2, p3, p4) \<Rightarrow>
             (let product = p1 * p2 * p3 * p4; u = sink product in Inr product))"

record top_bottom =
  top :: u32
  bottom :: u32

text \<open>
  \<^verbatim>\<open>sum_halves\<close>: \<^verbatim>\<open>for (size_t i = 0; i < len; i += 2)\<close>, each pass reading \<^verbatim>\<open>data[i]\<close> and
  \<^verbatim>\<open>data[i+1]\<close>.
\<close>

function sum_halves_loop :: "u32 list \<Rightarrow> u64 \<Rightarrow> u64 \<Rightarrow> u32 \<Rightarrow> u32 \<Rightarrow> error + top_bottom" where
  "sum_halves_loop data len i tp bt =
     (if i < len then
        (case rd 4 data i of
           Inl e \<Rightarrow> Inl e
         | Inr elem \<Rightarrow>
             (let tp = tp + drop_bit 16 elem; bt = bt + (elem AND 0xFFFF)
              in case rd 4 data (i + 1) of
                   Inl e \<Rightarrow> Inl e
                 | Inr elem \<Rightarrow>
                     (let tp = tp + drop_bit 16 elem; bt = bt + (elem AND 0xFFFF)
                      in sum_halves_loop data len (i + 2) tp bt)))
      else Inr \<lparr>top = tp, bottom = bt\<rparr>)"
  by pat_completeness auto
termination
proof (relation "measure (\<lambda>(data, len, i, tp, bt). 2 ^ 64 - unat i)")
  fix data :: "u32 list" and len i :: u64 and tp bt xa xb xc xd elem :: u32
  assume "rd 4 data i = Inr elem"
  then have b: "unat i * 4 < 2 ^ 64"
    by (simp add: rd_def split: if_splits)
  then have "unat (i + 2) = unat i + 2"
    by (simp add: unat_word_ariths)
  then show "((data, len, i + 2, xc, xd), (data, len, i, tp, bt))
      \<in> measure (\<lambda>(data, len, i, tp, bt). 2 ^ 64 - unat i)"
    using b by simp
qed simp

declare sum_halves_loop.simps [simp del]

definition sum_halves :: "u32 list \<Rightarrow> u64 \<Rightarrow> error + top_bottom" where
  "sum_halves data len = (let tp = 0; bt = 0 in sum_halves_loop data len 0 tp bt)"

text \<open>
  \<^verbatim>\<open>mul_by\<close>: \<^verbatim>\<open>for (size_t i = 0; i < len - 1; i++)\<close> with \<^verbatim>\<open>sum += x * y * m * i * i\<close>. The
  product \<^verbatim>\<open>x * y * m\<close> is computed in 32 bits, the multiplications by the \<^verbatim>\<open>size_t\<close> \<open>i\<close>
  and the addition in 64 bits, and the result is cut to the 32 bits of \<open>sum\<close>.
\<close>

function mul_by_loop :: "u32 list \<Rightarrow> u64 \<Rightarrow> u32 \<Rightarrow> u64 \<Rightarrow> u32 \<Rightarrow> error + u32" where
  "mul_by_loop data len m i sumv =
     (if i < len - 1 then
        (case rd 4 data i of
           Inl e \<Rightarrow> Inl e
         | Inr x \<Rightarrow>
        (case rd 4 data (i + 1) of
           Inl e \<Rightarrow> Inl e
         | Inr y \<Rightarrow>
             mul_by_loop data len m (i + 1) (ucast (ucast sumv + ucast (x * y * m) * i * i))))
      else Inr sumv)"
  by pat_completeness auto
termination
proof (relation "measure (\<lambda>(data, len, m, i, sumv). unat (len - 1) - unat i)")
  fix data :: "u32 list" and len i :: u64 and m sumv x y :: u32
  assume "i < len - 1"
  then have "unat (i + 1) = unat i + 1" and "unat i < unat (len - 1)"
    by unat_arith+
  then show "((data, len, m, i + 1, (ucast (ucast sumv + ucast (x * y * m) * i * i) :: u32)),
       (data, len, m, i, sumv))
      \<in> measure (\<lambda>(data, len, m, i, sumv). unat (len - 1) - unat i)"
    by simp
qed simp

declare mul_by_loop.simps [simp del]

definition mul_by :: "u32 list \<Rightarrow> u64 \<Rightarrow> u32 \<Rightarrow> error + u32" where
  "mul_by data len m =
     (let sumv = 0
      in case mul_by_loop data len m 0 sumv of
           Inl e \<Rightarrow> Inl e
         | Inr sumv \<Rightarrow> (let u = sink sumv in Inr sumv))"

text \<open>
  \<^verbatim>\<open>sum_halves_bench\<close>: \<^verbatim>\<open>do { ... } while (--iters != 0); return 0;\<close>. The local array
  \<^verbatim>\<open>uint32_t buf[4096]\<close> is not initialised: its content is an argument here.
\<close>

function sum_halves_bench_loop :: "u32 list \<Rightarrow> u64 \<Rightarrow> error + unit" where
  "sum_halves_bench_loop buf iters =
     (case sum_halves buf 4096 of
        Inl e \<Rightarrow> Inl e
      | Inr ret \<Rightarrow>
          (let u = sink (top ret + bottom ret); iters = iters - 1
           in if iters \<noteq> 0 then sum_halves_bench_loop buf iters else Inr ()))"
  by pat_completeness auto
termination
proof (relation "measure (\<lambda>(buf, iters). unat (iters - 1))")
  fix buf :: "u32 list" and iters xb :: u64
  assume x: "xb = iters - 1" and "xb \<noteq> 0"
  then have "unat (xb - 1) < unat xb"
    by unat_arith
  then show "((buf, xb), (buf, iters)) \<in> measure (\<lambda>(buf, iters). unat (iters - 1))"
    by (simp add: x)
qed simp

declare sum_halves_bench_loop.simps [simp del]

definition sum_halves_bench :: "u64 \<Rightarrow> u32 list \<Rightarrow> error + int" where
  "sum_halves_bench iters buf =
     (case sum_halves_bench_loop buf iters of Inl e \<Rightarrow> Inl e | Inr u \<Rightarrow> Inr 0)"

text \<open>
  \<^verbatim>\<open>mul_by_bench_f\<close>, with the kernel \<open>f\<close> as its template argument and the content of its
  uninitialised local array \<^verbatim>\<open>uint32_t buf[4096]\<close> as an argument.
\<close>

type_synonym mul_kernel = "u32 list \<Rightarrow> u64 \<Rightarrow> u32 \<Rightarrow> error + u32"

function mul_by_bench_loop :: "mul_kernel \<Rightarrow> u32 list \<Rightarrow> u32 \<Rightarrow> u64 \<Rightarrow> error + unit" where
  "mul_by_bench_loop f buf x iters =
     (case f buf 4096 x of
        Inl e \<Rightarrow> Inl e
      | Inr r \<Rightarrow>
          (let u = sink r; iters = iters - 1
           in if iters \<noteq> 0 then mul_by_bench_loop f buf x iters else Inr ()))"
  by pat_completeness auto
termination
proof (relation "measure (\<lambda>(f, buf, x, iters). unat (iters - 1))")
  fix f :: mul_kernel and buf :: "u32 list" and x :: u32 and iters xb :: u64
  assume x: "xb = iters - 1" and "xb \<noteq> 0"
  then have "unat (xb - 1) < unat xb"
    by unat_arith
  then show "((f, buf, x, xb), (f, buf, x, iters)) \<in> measure (\<lambda>(f, buf, x, iters). unat (iters - 1))"
    by (simp add: x)
qed simp

declare mul_by_bench_loop.simps [simp del]

definition mul_by_bench_f :: "u64 \<Rightarrow> u32 list \<Rightarrow> mul_kernel \<Rightarrow> error + int" where
  "mul_by_bench_f iters buf f =
     (let x = 123; x = modify x
      in case mul_by_bench_loop f buf x iters of Inl e \<Rightarrow> Inl e | Inr u \<Rightarrow> Inr 0)"

definition mul_by_bench :: "u64 \<Rightarrow> u32 list \<Rightarrow> error + int" where
  "mul_by_bench iters buf = mul_by_bench_f iters buf mul_by"

definition mul_chain_bench :: "u64 \<Rightarrow> u32 list \<Rightarrow> error + int" where
  "mul_chain_bench iters buf = mul_by_bench_f iters buf mul_chain"

definition mul_chain4_bench :: "u64 \<Rightarrow> u32 list \<Rightarrow> error + int" where
  "mul_chain4_bench iters buf = mul_by_bench_f iters buf mul_chain4"

section \<open>The indirect additions\<close>

text \<open>
  The \<^verbatim>\<open>do { ... i -= 2; } while (i)\<close> loop of \<^verbatim>\<open>add_indirect_inner\<close>. An offset is a
  \<^verbatim>\<open>uint32_t\<close>, converted to the index type.
\<close>

function add_indirect_loop ::
  "u32 list \<Rightarrow> u32 list \<Rightarrow> u64 \<Rightarrow> u32 \<Rightarrow> u32 \<Rightarrow> error + (u32 \<times> u32)" where
  "add_indirect_loop data offsets i sum1 sum2 =
     (case rd 4 offsets (i - 1) of
        Inl e \<Rightarrow> Inl e
      | Inr o1 \<Rightarrow>
     (case rd 4 data (ucast o1) of
        Inl e \<Rightarrow> Inl e
      | Inr x1 \<Rightarrow>
     (case rd 4 offsets (i - 2) of
        Inl e \<Rightarrow> Inl e
      | Inr o2 \<Rightarrow>
     (case rd 4 data (ucast o2) of
        Inl e \<Rightarrow> Inl e
      | Inr x2 \<Rightarrow>
          (let sum1 = sum1 + x1; sum2 = sum2 + x2; i = i - 2
           in if i \<noteq> 0 then add_indirect_loop data offsets i sum1 sum2
              else Inr (sum1, sum2))))))"
  by pat_completeness auto
termination
proof (relation "measure (\<lambda>(data, offsets, i, sum1, sum2). unat i)")
  fix data offsets :: "u32 list" and i xd :: u64 and sum1 sum2 o2 xb xc :: u32
  assume r: "rd 4 offsets (i - 2) = Inr o2" and x: "xd = i - 2"
  from r have "unat (i - 2) * 4 < 2 ^ 64"
    by (simp add: rd_def split: if_splits)
  moreover have "unat (j + 2) = unat j + 2" if "unat j * 4 < 2 ^ 64" for j :: u64
    using that by (simp add: unat_word_ariths)
  ultimately have "unat (i - 2 + 2) = unat (i - 2) + 2"
    by blast
  then have "unat (i - 2) < unat i"
    by simp
  then show "((data, offsets, xd, xb, xc), (data, offsets, i, sum1, sum2))
      \<in> measure (\<lambda>(data, offsets, i, sum1, sum2). unat i)"
    by (simp add: x)
qed simp

declare add_indirect_loop.simps [simp del]

text \<open>
  \<^verbatim>\<open>assert(len >= 2 && len % 2 == 0)\<close> ends the program when it fails (in a build with
  assertions).
\<close>

definition add_indirect_inner :: "u32 list \<Rightarrow> u32 list \<Rightarrow> u64 \<Rightarrow> error + u32" where
  "add_indirect_inner data offsets len =
     (if \<not> (2 \<le> len \<and> len mod 2 = 0) then Inl AssertFailed
      else
        (let sum1 = 0; sum2 = 0; i = len
         in case add_indirect_loop data offsets i sum1 sum2 of
              Inl e \<Rightarrow> Inl e
            | Inr (sum1, sum2) \<Rightarrow> (let u = sink (sum1 + sum2) in Inr (sum1 + sum2))))"

text \<open>
  The loop of \<^verbatim>\<open>add_indirect_shift_inner\<close>. \<^verbatim>\<open>memcpy\<close> copies the eight bytes of
  \<^verbatim>\<open>offsets[i - 2]\<close> and \<^verbatim>\<open>offsets[i - 1]\<close> into \<open>twooffsets\<close>; on the little-endian target
  the first is its low half and the second its high half.
\<close>

function add_indirect_shift_loop ::
  "u32 list \<Rightarrow> u32 list \<Rightarrow> u64 \<Rightarrow> u32 \<Rightarrow> u32 \<Rightarrow> error + (u32 \<times> u32)" where
  "add_indirect_shift_loop data offsets i sum1 sum2 =
     (case rd 4 offsets (i - 2) of
        Inl e \<Rightarrow> Inl e
      | Inr lo \<Rightarrow>
     (case rd 4 offsets (i - 2 + 1) of
        Inl e \<Rightarrow> Inl e
      | Inr hi \<Rightarrow>
          (let twooffsets = (ucast lo OR push_bit 32 (ucast hi) :: u64)
           in case rd 4 data (drop_bit 32 twooffsets) of
                Inl e \<Rightarrow> Inl e
              | Inr x1 \<Rightarrow>
             (case rd 4 data (twooffsets AND 0xFFFFFFFF) of
                Inl e \<Rightarrow> Inl e
              | Inr x2 \<Rightarrow>
                  (let sum1 = sum1 + x1; sum2 = sum2 + x2; i = i - 2
                   in if i \<noteq> 0 then add_indirect_shift_loop data offsets i sum1 sum2
                      else Inr (sum1, sum2))))))"
  by pat_completeness auto
termination
proof (relation "measure (\<lambda>(data, offsets, i, sum1, sum2). unat i)")
  fix data offsets :: "u32 list" and i xd :: u64 and sum1 sum2 lo xb xc :: u32
  assume r: "rd 4 offsets (i - 2) = Inr lo" and x: "xd = i - 2"
  from r have "unat (i - 2) * 4 < 2 ^ 64"
    by (simp add: rd_def split: if_splits)
  moreover have "unat (j + 2) = unat j + 2" if "unat j * 4 < 2 ^ 64" for j :: u64
    using that by (simp add: unat_word_ariths)
  ultimately have "unat (i - 2 + 2) = unat (i - 2) + 2"
    by blast
  then have "unat (i - 2) < unat i"
    by simp
  then show "((data, offsets, xd, xb, xc), (data, offsets, i, sum1, sum2))
      \<in> measure (\<lambda>(data, offsets, i, sum1, sum2). unat i)"
    by (simp add: x)
qed simp

declare add_indirect_shift_loop.simps [simp del]

definition add_indirect_shift_inner :: "u32 list \<Rightarrow> u32 list \<Rightarrow> u64 \<Rightarrow> error + u32" where
  "add_indirect_shift_inner data offsets len =
     (let sum1 = 0; sum2 = 0; i = len
      in case add_indirect_shift_loop data offsets i sum1 sum2 of
           Inl e \<Rightarrow> Inl e
         | Inr (sum1, sum2) \<Rightarrow> (let u = sink (sum1 + sum2) in Inr (sum1 + sum2)))"

text \<open>
  \<^verbatim>\<open>add_indirect_f\<close>, with the kernel \<open>f\<close> as its template argument and the content of its
  uninitialised local array \<^verbatim>\<open>uint32_t buf[4096]\<close> as an argument; \<^verbatim>\<open>offsets[4096] = {}\<close> is
  4096 zeros.
\<close>

type_synonym gather_kernel = "u32 list \<Rightarrow> u32 list \<Rightarrow> u64 \<Rightarrow> error + u32"

function add_indirect_f_loop ::
  "gather_kernel \<Rightarrow> u32 list \<Rightarrow> u32 list \<Rightarrow> u64 \<Rightarrow> error + unit" where
  "add_indirect_f_loop f buf offsets iters =
     (case f buf offsets 4096 of
        Inl e \<Rightarrow> Inl e
      | Inr r \<Rightarrow>
          (let u = sink r; iters = iters - 1
           in if iters \<noteq> 0 then add_indirect_f_loop f buf offsets iters else Inr ()))"
  by pat_completeness auto
termination
proof (relation "measure (\<lambda>(f, buf, offsets, iters). unat (iters - 1))")
  fix f :: gather_kernel and buf offsets :: "u32 list" and iters xb :: u64
  assume x: "xb = iters - 1" and "xb \<noteq> 0"
  then have "unat (xb - 1) < unat xb"
    by unat_arith
  then show "((f, buf, offsets, xb), (f, buf, offsets, iters))
      \<in> measure (\<lambda>(f, buf, offsets, iters). unat (iters - 1))"
    by (simp add: x)
qed simp

declare add_indirect_f_loop.simps [simp del]

definition add_indirect_f :: "u64 \<Rightarrow> u32 list \<Rightarrow> gather_kernel \<Rightarrow> error + int" where
  "add_indirect_f iters buf f =
     (let offsets = replicate 4096 0; x = (123 :: u32); x = modify x
      in case add_indirect_f_loop f buf offsets iters of Inl e \<Rightarrow> Inl e | Inr u \<Rightarrow> Inr 0)"

definition add_indirect :: "u64 \<Rightarrow> u32 list \<Rightarrow> error + int" where
  "add_indirect iters buf = add_indirect_f iters buf add_indirect_inner"

definition add_indirect_shift :: "u64 \<Rightarrow> u32 list \<Rightarrow> error + int" where
  "add_indirect_shift iters buf = add_indirect_f iters buf add_indirect_shift_inner"

section \<open>The linked lists\<close>

text \<open>
  \<^verbatim>\<open>struct list_node { int value; list_node* next; }\<close> and
  \<^verbatim>\<open>struct list_head { int size; list_node *first; }\<close>. The nodes live in a heap: the list of
  all nodes allocated so far, a node's address being its position; \<^verbatim>\<open>nullptr\<close> is \<open>None\<close>.
  (The field names carry a prefix: \<open>value\<close>, \<open>next\<close> and \<open>size\<close> are taken in Isabelle.)
\<close>

type_synonym ptr = "nat option"

record list_node =
  node_value :: u32
  node_next :: ptr

record list_head =
  head_size :: int
  head_first :: ptr

type_synonym heap = "list_node list"

text \<open>
  \<^verbatim>\<open>new list_node[n]()\<close> allocates \<open>n\<close> value-initialised nodes (value 0, next null) and
  returns the address of the first; a negative \<open>n\<close> makes the allocation throw.
  \<^verbatim>\<open>new list_node{v, p}\<close> allocates one node.
\<close>

definition new_array :: "int \<Rightarrow> heap \<Rightarrow> error + (heap \<times> nat)" where
  "new_array n h =
     (if n < 0 then Inl BadAlloc
      else Inr (h @ replicate (nat n) \<lparr>node_value = 0, node_next = None\<rparr>, length h))"

definition new_node :: "list_node \<Rightarrow> heap \<Rightarrow> heap \<times> nat" where
  "new_node x h = (h @ [x], length h)"

text \<open>
  The loop of \<^verbatim>\<open>makeList\<close>: \<^verbatim>\<open>while (--size > 0) { next = all_nodes++; cur->next = next;
  cur = next; }\<close>. \<open>cur\<close> and \<open>all_nodes\<close> are addresses of allocated nodes.
\<close>

function makeList_loop :: "heap \<Rightarrow> nat \<Rightarrow> nat \<Rightarrow> int \<Rightarrow> heap" where
  "makeList_loop h all_nodes cur size' =
     (let size' = size' - 1
      in if size' > 0 then
           (let nxt = all_nodes;
                all_nodes = all_nodes + 1;
                h = h[cur := (h ! cur)\<lparr>node_next := Some nxt\<rparr>];
                cur = nxt
            in makeList_loop h all_nodes cur size')
         else h)"
  by pat_completeness auto
termination
  by (relation "measure (\<lambda>(h, all_nodes, cur, size'). nat size')") auto

declare makeList_loop.simps [simp del]

definition makeList :: "int \<Rightarrow> heap \<Rightarrow> error + (heap \<times> list_head)" where
  "makeList size' h =
     (let head = \<lparr>head_size = size', head_first = None\<rparr>
      in if size' \<noteq> 0 then
           (case new_array size' h of
              Inl e \<Rightarrow> Inl e
            | Inr (h, all_nodes) \<Rightarrow>
                (let (h, first) = new_node \<lparr>node_value = 1, node_next = None\<rparr> h;
                     head = head\<lparr>head_first := Some first\<rparr>;
                     cur = first;
                     h = makeList_loop h all_nodes cur size'
                 in Inr (h, head)))
         else Inr (h, head))"

definition NODE_COUNT :: int where
  "NODE_COUNT = 5"

text \<open>
  \<^verbatim>\<open>makeLists\<close>: \<^verbatim>\<open>for (int i = 0; i < LIST_COUNT; i++) lists.push_back(makeList(NODE_COUNT))\<close>.
  \<^verbatim>\<open>LIST_COUNT\<close> is defined in a header that is not among the sources; it is an argument
  here, a count of lists that fits the \<^verbatim>\<open>int\<close> it is compared with. The random engine and
  the distribution that \<^verbatim>\<open>makeLists\<close> declares are not used.
\<close>

function makeLists_loop ::
  "nat \<Rightarrow> nat \<Rightarrow> heap \<Rightarrow> list_head list \<Rightarrow> error + (heap \<times> list_head list)" where
  "makeLists_loop LIST_COUNT i h lists' =
     (if i < LIST_COUNT then
        (case makeList NODE_COUNT h of
           Inl e \<Rightarrow> Inl e
         | Inr (h, head) \<Rightarrow> makeLists_loop LIST_COUNT (i + 1) h (lists' @ [head]))
      else Inr (h, lists'))"
  by pat_completeness auto
termination
  by (relation "measure (\<lambda>(LIST_COUNT, i, h, lists'). LIST_COUNT - i)") auto

declare makeLists_loop.simps [simp del]

text \<open>
  \<^verbatim>\<open>std::vector<list_head> listOfLists = makeLists()\<close>, together with the heap that holds
  the nodes: the global state the list kernels read.
\<close>

definition makeLists :: "nat \<Rightarrow> error + (heap \<times> list_head list)" where
  "makeLists LIST_COUNT = makeLists_loop LIST_COUNT 0 [] []"

text \<open>
  \<^verbatim>\<open>typedef long (list_sum)(list_head head)\<close>. A \<^verbatim>\<open>long\<close> is a 64-bit word; a traversal that does
  not end gives \<open>None\<close>.
\<close>

type_synonym list_sum = "heap \<Rightarrow> list_head \<Rightarrow> (error + u64) option"

text \<open>
  \<^verbatim>\<open>sum_counter\<close>: \<^verbatim>\<open>for (int i = 0; i < list.size; cur = cur->next, i++) sum += cur->value\<close>.
  The link is followed without a test: reading through a null pointer is an error.
\<close>

function sum_counter_loop :: "heap \<Rightarrow> list_head \<Rightarrow> int \<Rightarrow> ptr \<Rightarrow> u32 \<Rightarrow> error + u32" where
  "sum_counter_loop h list i cur sumv =
     (if i < head_size list then
        (case cur of
           None \<Rightarrow> Inl NullDeref
         | Some a \<Rightarrow>
             if a < length h then
               sum_counter_loop h list (i + 1) (node_next (h ! a)) (sumv + node_value (h ! a))
             else Inl OutOfBounds)
      else Inr sumv)"
  by pat_completeness auto
termination
  by (relation "measure (\<lambda>(h, list, i, cur, sumv). nat (head_size list - i))") auto

declare sum_counter_loop.simps [simp del]

definition sum_counter :: list_sum where
  "sum_counter h list =
     (let sumv = 0; cur = head_first list
      in Some (map_sum id scast (sum_counter_loop h list 0 cur sumv)))"

text \<open>
  \<^verbatim>\<open>sum_sentinel\<close>: \<^verbatim>\<open>for (list_node* cur = list.first; cur; cur = cur->next) sum += cur->value\<close>.
\<close>

partial_function (option) sum_sentinel_loop :: "heap \<Rightarrow> ptr \<Rightarrow> u32 \<Rightarrow> (error + u32) option" where
  "sum_sentinel_loop h cur sumv =
     (case cur of
        None \<Rightarrow> Some (Inr sumv)
      | Some a \<Rightarrow>
          if a < length h then
            sum_sentinel_loop h (node_next (h ! a)) (sumv + node_value (h ! a))
          else Some (Inl OutOfBounds))"

definition sum_sentinel :: list_sum where
  "sum_sentinel h list =
     (let sumv = 0
      in map_option (map_sum id scast) (sum_sentinel_loop h (head_first list) sumv))"

text \<open>
  \<^verbatim>\<open>linkedlist_sum\<close>. The inner loop is
  \<^verbatim>\<open>for (size_t list_index = 0; list_index < LIST_COUNT; list_index++)\<close> with
  \<^verbatim>\<open>sum += SUM_IMPL(listOfLists[list_index])\<close>: the \<^verbatim>\<open>int\<close> \<open>sum\<close> is converted to \<^verbatim>\<open>long\<close>, added
  to the \<^verbatim>\<open>long\<close> result and cut back to 32 bits.
\<close>

function linkedlist_sum_inner ::
  "list_sum \<Rightarrow> nat \<Rightarrow> heap \<Rightarrow> list_head list \<Rightarrow> nat \<Rightarrow> u32 \<Rightarrow> (error + u32) option" where
  "linkedlist_sum_inner SUM_IMPL LIST_COUNT h listOfLists list_index sumv =
     (if list_index < LIST_COUNT then
        (if list_index < length listOfLists then
           (case SUM_IMPL h (listOfLists ! list_index) of
              None \<Rightarrow> None
            | Some (Inl e) \<Rightarrow> Some (Inl e)
            | Some (Inr r) \<Rightarrow>
                linkedlist_sum_inner SUM_IMPL LIST_COUNT h listOfLists (list_index + 1)
                  (ucast ((scast sumv :: u64) + r)))
         else Some (Inl OutOfBounds))
      else Some (Inr sumv))"
  by pat_completeness auto
termination
  by (relation "measure (\<lambda>(SUM_IMPL, LIST_COUNT, h, listOfLists, list_index, sumv).
        LIST_COUNT - list_index)") auto

declare linkedlist_sum_inner.simps [simp del]

text \<open>The outer loop is \<^verbatim>\<open>while (iters-- > 0)\<close>.\<close>

function linkedlist_sum_loop ::
  "list_sum \<Rightarrow> nat \<Rightarrow> heap \<Rightarrow> list_head list \<Rightarrow> u64 \<Rightarrow> u32 \<Rightarrow> (error + u32) option" where
  "linkedlist_sum_loop SUM_IMPL LIST_COUNT h listOfLists iters sumv =
     (if iters > 0 then
        (let iters = iters - 1
         in case linkedlist_sum_inner SUM_IMPL LIST_COUNT h listOfLists 0 sumv of
              None \<Rightarrow> None
            | Some (Inl e) \<Rightarrow> Some (Inl e)
            | Some (Inr sumv) \<Rightarrow> linkedlist_sum_loop SUM_IMPL LIST_COUNT h listOfLists iters sumv)
      else Some (Inr sumv))"
  by pat_completeness auto
termination
proof (relation "measure (\<lambda>(SUM_IMPL, LIST_COUNT, h, listOfLists, iters, sumv). unat iters)")
  fix SUM_IMPL :: list_sum and LIST_COUNT :: nat and h :: heap and listOfLists :: "list_head list"
    and iters x :: u64 and sumv y :: u32
  assume "0 < iters" and x: "x = iters - 1"
  then have "unat (iters - 1) < unat iters"
    by unat_arith
  then show "((SUM_IMPL, LIST_COUNT, h, listOfLists, x, y),
       (SUM_IMPL, LIST_COUNT, h, listOfLists, iters, sumv))
      \<in> measure (\<lambda>(SUM_IMPL, LIST_COUNT, h, listOfLists, iters, sumv). unat iters)"
    by (simp add: x)
qed simp

declare linkedlist_sum_loop.simps [simp del]

text \<open>The result is the \<^verbatim>\<open>int\<close> \<open>sum\<close> converted to \<^verbatim>\<open>long\<close>.\<close>

definition linkedlist_sum ::
  "list_sum \<Rightarrow> nat \<Rightarrow> heap \<times> list_head list \<Rightarrow> u64 \<Rightarrow> (error + int) option" where
  "linkedlist_sum SUM_IMPL LIST_COUNT globals iters =
     (let (h, listOfLists) = globals; sumv = 0
      in map_option (map_sum id sint)
           (linkedlist_sum_loop SUM_IMPL LIST_COUNT h listOfLists iters sumv))"

definition linkedlist_counter :: "nat \<Rightarrow> heap \<times> list_head list \<Rightarrow> u64 \<Rightarrow> (error + int) option" where
  "linkedlist_counter LIST_COUNT globals iters = linkedlist_sum sum_counter LIST_COUNT globals iters"

definition linkedlist_sentinel :: "nat \<Rightarrow> heap \<times> list_head list \<Rightarrow> u64 \<Rightarrow> (error + int) option" where
  "linkedlist_sentinel LIST_COUNT globals iters = linkedlist_sum sum_sentinel LIST_COUNT globals iters"

section \<open>Properties of the portable add chain\<close>

text \<open>The signed value of a 64-bit word.\<close>

lemma sint_u64: "sint (n :: u64) = (if uint n < 2 ^ 63 then uint n else uint n - 2 ^ 64)"
proof -
  define u where "u = uint n"
  define k where "k = (if u < 2 ^ 63 then u else u - 2 ^ 64)"
  have b: "0 \<le> u" "u < 2 ^ 64" using uint_lt2p [of n] by (simp_all add: u_def)
  have "(word_of_int k :: u64) = n"
    by (simp add: k_def u_def word_of_int_2p_len [where 'a = 64, simplified])
  moreover have "- (2 ^ 63) \<le> k" "k < 2 ^ 63"
    using b by (auto simp: k_def)
  then have "signed_take_bit 63 k = k"
    by (rule signed_take_bit_int_eq_self)
  then have "sint (word_of_int k :: u64) = k"
    by (simp add: signed_of_int)
  ultimately show ?thesis by (simp add: k_def u_def)
qed

text \<open>A decrement that does not overflow lowers the signed value by one.\<close>

lemma dec_int64_cases:
  "dec_int64 a = (if sint a = - (2 ^ 63) then Inl SignedOverflow else Inr (a - 1)) \<and>
   (sint a \<noteq> - (2 ^ 63) \<longrightarrow> sint (a - 1) = sint a - 1)"
proof -
  have "sint (a - 1) = sint a - 1" if a: "sint a \<noteq> - (2 ^ 63)"
  proof -
    have "- (2 ^ 63) \<le> sint a" "sint a < 2 ^ 63"
      using sint_ge [of a] sint_lt [of a] by simp_all
    with a have "- (2 ^ 63) \<le> sint a - 1" "sint a - 1 < 2 ^ 63"
      by simp_all
    then have "signed_take_bit 63 (sint a - 1) = sint a - 1"
      by (rule signed_take_bit_int_eq_self)
    then show ?thesis
      by (simp add: sint_word_diff)
  qed
  then show ?thesis by (simp add: dec_int64_def)
qed

text \<open>A pass overflows exactly when the counter is within four of \<open>INT64_MIN\<close>.\<close>

lemma add_chain_body_cases:
  "add_chain_body x = (if sint x < - (2 ^ 63) + 4 then Inl SignedOverflow else Inr (x - 4)) \<and>
   (\<not> sint x < - (2 ^ 63) + 4 \<longrightarrow> sint (x - 4) = sint x - 4)"
proof -
  have lo: "- (2 ^ 63) \<le> sint x" using sint_ge [of x] by simp
  show ?thesis
  proof (cases "sint x < - (2 ^ 63) + 4")
    case True
    with lo have "sint x = - (2 ^ 63) \<or> sint x = - (2 ^ 63) + 1 \<or> sint x = - (2 ^ 63) + 2
        \<or> sint x = - (2 ^ 63) + 3" by arith
    then show ?thesis using True dec_int64_cases [of x] dec_int64_cases [of "x - 1"]
        dec_int64_cases [of "x - 1 - 1"] dec_int64_cases [of "x - 1 - 1 - 1"]
      by (auto simp: add_chain_body_def modify_def)
  next
    case False
    then have 1: "sint x \<noteq> - (2 ^ 63)" by simp
    with dec_int64_cases [of x] have s1: "sint (x - 1) = sint x - 1" by simp
    with False have 2: "sint (x - 1) \<noteq> - (2 ^ 63)" by simp
    with dec_int64_cases [of "x - 1"] s1 have s2: "sint (x - 1 - 1) = sint x - 2" by simp
    with False have 3: "sint (x - 1 - 1) \<noteq> - (2 ^ 63)" by simp
    with dec_int64_cases [of "x - 1 - 1"] s2 have s3: "sint (x - 1 - 1 - 1) = sint x - 3" by simp
    with False have 4: "sint (x - 1 - 1 - 1) \<noteq> - (2 ^ 63)" by simp
    with dec_int64_cases [of "x - 1 - 1 - 1"] s3 have s4: "sint (x - 1 - 1 - 1 - 1) = sint x - 4"
      by simp
    have e: "x - 1 - 1 - 1 - 1 = x - 4" by simp
    show ?thesis using False 1 2 3 4 s4
      by (simp add: add_chain_body_def modify_def dec_int64_def e)
  qed
qed

text \<open>
  The loop returns 0 when it starts on a positive multiple of four. From every other
  value the counter never holds 0 at the end of a pass and the loop ends in the overflow.
\<close>

lemma add_chain_loop_outcome:
  "add_chain_loop x = (if 4 dvd sint x \<and> 4 \<le> sint x then Inr 0 else Inl SignedOverflow)"
proof (induction x rule: add_chain_loop.induct)
  case (1 x)
  show ?case
  proof (cases "sint x < - (2 ^ 63) + 4")
    case True
    then have "add_chain_body x = Inl SignedOverflow" using add_chain_body_cases [of x] by simp
    moreover from True have "\<not> 4 \<le> sint x" by simp
    ultimately show ?thesis by (subst add_chain_loop.simps) simp
  next
    case False
    then have b: "add_chain_body x = Inr (x - 4)" and s: "sint (x - 4) = sint x - 4"
      using add_chain_body_cases [of x] by simp_all
    show ?thesis
    proof (cases "x - 4 = 0")
      case True
      then have "sint (x - 4) = 0" by simp
      with s have "sint x = 4" by simp
      with b True show ?thesis by (subst add_chain_loop.simps) simp
    next
      case nz: False
      then have "sint (x - 4) \<noteq> 0" by (simp only: signed_eq_0_iff not_False_eq_True)
      with s have n4: "sint x \<noteq> 4" by simp
      from "1.IH" [OF b nz] s
      have "add_chain_loop (x - 4) =
          (if 4 dvd (sint x - 4) \<and> 4 \<le> sint x - 4 then Inr 0 else Inl SignedOverflow)" by simp
      moreover have "(4 dvd (sint x - 4) \<and> 4 \<le> sint x - 4) = (4 dvd sint x \<and> 4 \<le> sint x)"
        using n4 by presburger
      ultimately show ?thesis using b nz by (subst add_chain_loop.simps) simp
    qed
  qed
qed

lemma signed_count:
  "(4 dvd sint n \<and> 4 \<le> sint n) = (4 dvd unat n \<and> 4 \<le> unat n \<and> unat n < 2 ^ 63)"
  for n :: u64
proof -
  define m where "m = unat n"
  have um: "uint n = int m" by (simp add: m_def)
  have b: "m < 2 ^ 64" using unsigned_less [of n] by (simp add: m_def)
  have s: "sint n = (if int m < 2 ^ 63 then int m else int m - 2 ^ 64)"
    by (simp only: sint_u64 um)
  have "(4 dvd sint n \<and> 4 \<le> sint n) = (4 dvd m \<and> 4 \<le> m \<and> m < 2 ^ 63)"
  proof (cases "m < 2 ^ 63")
    case True
    then have "sint n = int m" by (simp add: s)
    moreover have "(4 dvd int m) = (4 dvd m)" by presburger
    ultimately show ?thesis using True by simp
  next
    case False
    then have "sint n = int m - 2 ^ 64" by (simp add: s)
    with b have "sint n < 0" by simp
    with False show ?thesis by simp
  qed
  then show ?thesis by (simp only: m_def)
qed

text \<open>
  Claim C2, as stated, fails at iteration counts that are multiples of four but not
  positive as an \<^verbatim>\<open>int64_t\<close>. At count 0 the first pass takes the counter to \<open>- 4\<close> and the
  loop goes on down to \<open>INT64_MIN\<close>; at count \<open>2 ^ 63\<close> the counter starts at \<open>INT64_MIN\<close>. In
  both the next \<^verbatim>\<open>--iters\<close> is a signed overflow, and the kernel does not return 0.
\<close>

theorem portable_add_chain_overflows:
  "portable_add_chain 0 = Inl SignedOverflow \<and> portable_add_chain (2 ^ 63) = Inl SignedOverflow"
  by (simp add: portable_add_chain_def add_chain_loop_outcome signed_count)

text \<open>
  Claim C2, amended. For every iteration count that is a multiple of four with
  \<open>4 \<le> n < 2 ^ 63\<close> the portable add-chain kernel terminates and returns exactly 0. For
  every other iteration count (not a multiple of four, or 0, or at least \<open>2 ^ 63\<close>) it never
  returns a value: the counter is never 0 at the end of a pass, and the loop runs until the
  counter holds \<open>INT64_MIN\<close>, where the next decrement is a signed overflow, which is
  undefined.
\<close>

theorem portable_add_chain_outcome:
  "(4 dvd unat n \<and> 4 \<le> unat n \<and> unat n < 2 ^ 63 \<longrightarrow> portable_add_chain n = Inr 0) \<and>
   (\<not> (4 dvd unat n \<and> 4 \<le> unat n \<and> unat n < 2 ^ 63) \<longrightarrow>
      portable_add_chain n = Inl SignedOverflow)"
  by (simp add: portable_add_chain_def add_chain_loop_outcome signed_count)

theorem portable_add_chain_outcome_witness:
  "portable_add_chain 4 = Inr 0 \<and> portable_add_chain 40 = Inr 0 \<and>
   portable_add_chain 4000 = Inr 0 \<and> portable_add_chain 6 = Inl SignedOverflow"
  using portable_add_chain_outcome [of 4] portable_add_chain_outcome [of 40]
    portable_add_chain_outcome [of 4000] portable_add_chain_outcome [of 6]
  by simp

section \<open>Properties of the division kernels\<close>

lemma div64_divisor_zero: "div64_divisor forcedep 0 k s = k"
  by (simp add: div64_divisor_def)

lemma no_inline_eq: "no_inline F = F"
  by (rule ext) (simp add: no_inline_def)

lemma div64_loop_forcedep_Some:
  assumes "div64_loop F fd 0 iters k s = Some y"
  shows "div64_loop F fd' 0 iters k s = Some y"
proof -
  have "0 = (0::u64) \<longrightarrow> div64_loop F fd' 0 iters k s = Some y"
  proof (rule div64_loop.raw_induct
      [where P = "\<lambda>F fd zero iters k s y. zero = 0 \<longrightarrow> div64_loop F fd' zero iters k s = Some y",
        OF _ assms])
    fix f :: "div_func \<Rightarrow> bool \<Rightarrow> u64 \<Rightarrow> u64 \<Rightarrow> u64 \<Rightarrow> u64 \<Rightarrow> (error + u64) option"
      and F fd zero iters k s r
    assume IH: "\<And>F fd zero iters k s y. f F fd zero iters k s = Some y \<Longrightarrow>
        zero = 0 \<longrightarrow> div64_loop F fd' zero iters k s = Some y"
      and body: "(if k \<le> iters then case F (div64_divisor fd zero k s) of Inl e \<Rightarrow> Some (Inl e)
             | Inr q \<Rightarrow> f F fd zero iters (k + 1) (s + q) else Some (Inr s)) = Some r"
    show "zero = 0 \<longrightarrow> div64_loop F fd' zero iters k s = Some r"
    proof
      assume z: "zero = 0"
      show "div64_loop F fd' zero iters k s = Some r"
        using body IH z
        by (subst div64_loop.simps) (auto simp: div64_divisor_zero split: if_splits sum.splits)
    qed
  qed
  then show ?thesis by simp
qed

lemma div64_loop_forcedep: "div64_loop F True 0 iters k s = div64_loop F False 0 iters k s"
proof (cases "div64_loop F True 0 iters k s")
  case None
  show ?thesis
  proof (cases "div64_loop F False 0 iters k s")
    case None
    with \<open>div64_loop F True 0 iters k s = None\<close> show ?thesis by simp
  next
    case (Some y)
    from div64_loop_forcedep_Some [OF Some, of True] None show ?thesis by simp
  qed
next
  case (Some y)
  from div64_loop_forcedep_Some [OF Some, of False] Some show ?thesis by simp
qed

lemma div128_64_total: "\<exists>q. div128_64 portable a = Inr q"
proof (cases portable)
  case True then show ?thesis by (simp add: div128_64_def)
next
  case False
  let ?c = "0xF234567890123456 :: u64"
  have "?c \<le> a OR ?c" by (rule le_word_or1)
  then have le: "unat ?c \<le> unat (a OR ?c)" by (simp only: word_le_nat_alt)
  then have nz: "a OR ?c \<noteq> 0" by (auto simp: word_unat_eq_iff)
  have "(unat (123::u64) * 2 ^ 64 + unat (2::u64)) div unat (a OR ?c)
      \<le> (unat (123::u64) * 2 ^ 64 + unat (2::u64)) div unat ?c"
    using le by (intro div_le_mono2) simp_all
  also have "\<dots> < 2 ^ 64" by simp
  finally show ?thesis using nz False
    by (simp add: div128_64_def x86_div_def Let_def)
qed

lemma div_of_total: "d \<noteq> 0 \<Longrightarrow> \<exists>q. div_of portable w d = Inr q"
  using div128_64_total [of portable d]
  by (cases w) (simp_all add: div32_64_def div64_64_def)

lemma word_succ_unat: "k \<le> iters \<Longrightarrow> iters < - 1 \<Longrightarrow> unat (k + 1 :: u64) = unat k + 1"
  by unat_arith

lemma div64_loop_returns:
  assumes tot: "\<And>d. d \<noteq> 0 \<Longrightarrow> \<exists>q. F d = Inr q" and lt: "iters < - 1"
  shows "unat iters + 1 - unat k = n \<Longrightarrow> 1 \<le> k \<Longrightarrow>
    \<exists>s. div64_loop F fd 0 iters k sumv = Some (Inr s)"
proof (induction n arbitrary: k sumv)
  case 0
  then have "\<not> k \<le> iters" by (simp add: word_le_nat_alt)
  then show ?case by (subst div64_loop.simps) simp
next
  case (Suc n)
  then have le: "k \<le> iters" by (simp add: word_le_nat_alt)
  from Suc.prems have "k \<noteq> 0" by auto
  then obtain q where q: "F k = Inr q" using tot by blast
  have u: "unat (k + 1) = unat k + 1" using le lt by (rule word_succ_unat)
  then have "unat iters + 1 - unat (k + 1) = n" using Suc.prems by simp
  moreover have "1 \<le> k + 1" using u by (simp add: word_le_nat_alt)
  ultimately obtain s where "div64_loop F fd 0 iters (k + 1) (sumv + q) = Some (Inr s)"
    using Suc.IH by blast
  then show ?case using le q
    by (subst div64_loop.simps) (simp add: div64_divisor_zero)
qed

lemma div64_loop_wraps:
  assumes z: "F 0 = Inl DivByZero" and tot: "\<And>d. d \<noteq> 0 \<Longrightarrow> \<exists>q. F d = Inr q"
  shows "unat (- k) = n \<Longrightarrow> div64_loop F fd 0 (- 1) k sumv = Some (Inl DivByZero)"
proof (induction n arbitrary: k sumv)
  case 0
  then have "k = 0" by (simp add: unat_eq_0)
  then show ?case using z by (subst div64_loop.simps) (simp add: div64_divisor_zero)
next
  case (Suc n)
  then have "k \<noteq> 0" by auto
  then obtain q where q: "F k = Inr q" using tot by blast
  have "unat (- (k + 1)) = n" using Suc.prems \<open>k \<noteq> 0\<close> by unat_arith
  then have "div64_loop F fd 0 (- 1) (k + 1) (sumv + q) = Some (Inl DivByZero)"
    by (rule Suc.IH)
  then show ?case using q
    by (subst div64_loop.simps) (simp add: div64_divisor_zero)
qed

lemma div64_state_bounds:
  assumes lt: "iters < - 1"
  shows "div64_state F fd zero iters st \<Longrightarrow> 1 \<le> fst st \<and> unat (fst st) \<le> unat iters + 1"
proof (induction rule: div64_state.induct)
  case div64_init
  show ?case by simp
next
  case (div64_pass k sumv q)
  have u: "unat (k + 1) = unat k + 1" using div64_pass.hyps(2) lt by (rule word_succ_unat)
  then show ?case using div64_pass.hyps(2) by (simp add: word_le_nat_alt)
qed

lemma div64_state_loop:
  "div64_state F fd zero iters st \<Longrightarrow>
   div64_loop F fd zero iters 1 0 = div64_loop F fd zero iters (fst st) (snd st)"
proof (induction rule: div64_state.induct)
  case div64_init
  show ?case by simp
next
  case (div64_pass k sumv q)
  then show ?case by (simp add: div64_loop.simps [of F fd zero iters k sumv])
qed

lemma div64_templ_forcedep: "div64_templ F True iters = div64_templ F False iters"
  by (simp add: div64_templ_def always_zero_def div64_loop_forcedep)

lemma div64_templ_returns:
  assumes "\<And>d. d \<noteq> 0 \<Longrightarrow> \<exists>q. F d = Inr q" and "iters < - 1"
  shows "\<exists>s. div64_templ F fd iters = Some (Inr s)"
proof -
  have "\<exists>s. div64_loop F fd 0 iters 1 0 = Some (Inr s)"
  proof (rule div64_loop_returns)
    show "\<exists>q. F d = Inr q" if "d \<noteq> 0" for d using that assms(1) by blast
    show "iters < - 1" by fact
    show "unat iters + 1 - unat (1::u64) = unat iters" by simp
    show "1 \<le> (1::u64)" by simp
  qed
  then show ?thesis by (auto simp: div64_templ_def always_zero_def)
qed

text \<open>
  Claim C3. For every divisor width and every iteration count \<open>n > 0\<close>, the latency
  (forced-dependency) kernel and the throughput (independent-divisor) kernel of that width
  have the same outcome, in the inlined and in the non-inlined form; for \<open>n < 2 ^ 64 - 1\<close>
  that outcome is a returned sum. (At \<open>n = 2 ^ 64 - 1\<close> the loop counter wraps around and
  neither kernel returns a sum: the outcomes are still the same.)
\<close>

theorem div_latency_eq_throughput:
  "0 < n \<Longrightarrow>
   div_lat_inline portable w n = div_tput_inline portable w n \<and>
   div_lat_noinline portable w n = div_tput_noinline portable w n \<and>
   (n < - 1 \<longrightarrow> (\<exists>s. div_tput_inline portable w n = Some (Inr s)) \<and>
                (\<exists>s. div_tput_noinline portable w n = Some (Inr s)))"
  using div64_templ_returns [of "div_of portable w" n False, OF div_of_total]
  by (simp add: div_lat_inline_def div_tput_inline_def div_lat_noinline_def
      div_tput_noinline_def div64_templ_forcedep no_inline_eq)

theorem div_latency_eq_throughput_witness:
  "(0::u64) < 3 \<and> (3::u64) < - 1 \<and>
   div_lat_inline False S32_64 3 = Some (Inr 559936476) \<and>
   div_tput_inline False S32_64 3 = Some (Inr 559936476) \<and>
   div_lat_noinline False S32_64 3 = div_tput_noinline False S32_64 3"
  using div_latency_eq_throughput [of 3 False S32_64]
  by (simp add: div_tput_inline_def div64_templ_def always_zero_def div64_loop.simps
      div64_divisor_def div32_64_def)

text \<open>
  Claim C8. For every divisor width, every dependency variant and every iteration count
  \<open>n > 0\<close>, the always-inlined kernel and the forced-non-inlined kernel have the same
  outcome; for \<open>n < 2 ^ 64 - 1\<close> that outcome is a returned value.
\<close>

theorem div_inline_eq_noinline:
  "0 < n \<Longrightarrow>
   div_lat_inline portable w n = div_lat_noinline portable w n \<and>
   div_tput_inline portable w n = div_tput_noinline portable w n \<and>
   (n < - 1 \<longrightarrow> (\<exists>s. div_lat_noinline portable w n = Some (Inr s)) \<and>
                (\<exists>s. div_tput_noinline portable w n = Some (Inr s)))"
  using div64_templ_returns [of "div_of portable w" n True, OF div_of_total]
    div64_templ_returns [of "div_of portable w" n False, OF div_of_total]
  by (simp add: div_lat_inline_def div_tput_inline_def div_lat_noinline_def
      div_tput_noinline_def no_inline_eq)

theorem div_inline_eq_noinline_witness:
  "(0::u64) < 2 \<and> (2::u64) < - 1 \<and>
   div_lat_inline False S64_64 2 = div_lat_noinline False S64_64 2 \<and>
   div_tput_noinline False S64_64 2 = Some (Inr 1967652697759711668) \<and>
   div_tput_inline False S64_64 2 = Some (Inr 1967652697759711668)"
  using div_inline_eq_noinline [of 2 False S64_64]
  by (simp add: div_tput_inline_def div64_templ_def always_zero_def div64_loop.simps
      div64_divisor_def div64_64_def)

text \<open>
  Claim C9, as stated, fails at the iteration count \<open>2 ^ 64 - 1\<close>: the condition
  \<^verbatim>\<open>k <= iters\<close> then holds for every \<open>k\<close>, the counter wraps around from \<open>2 ^ 64 - 1\<close> to 0,
  and the next pass divides by \<open>d = k = 0\<close>.
\<close>

theorem div_by_zero_reached_at_max:
  "div_lat_inline False S32_64 (- 1) = Some (Inl DivByZero) \<and>
   div_tput_inline False S32_64 (- 1) = Some (Inl DivByZero)"
proof -
  have "div64_loop div32_64 fd 0 (- 1) 1 0 = Some (Inl DivByZero)" for fd
    by (rule div64_loop_wraps [where n = "unat (- 1 :: u64)"]) (simp_all add: div32_64_def)
  then show ?thesis
    by (simp add: div_lat_inline_def div_tput_inline_def div64_templ_def always_zero_def)
qed

text \<open>
  Claim C9, amended. Let the opaque value \<open>zero\<close> be 0 and the iteration count be below
  \<open>2 ^ 64 - 1\<close>. In every state \<open>(k, sum)\<close> in which the loop enters its body, in the
  forced-dependency and in the independent variant and for any division function, the
  divisor handed to the division equals \<open>k\<close> and is at least 1; so neither the 32-bit nor
  the 64-bit division takes its division-by-zero branch.
\<close>

theorem div64_divisor_is_counter:
  "zero = 0 \<Longrightarrow> iters < - 1 \<Longrightarrow> div64_state F forcedep zero iters (k, sumv) \<Longrightarrow> k \<le> iters \<Longrightarrow>
   div64_divisor forcedep zero k sumv = k \<and> 1 \<le> k \<and>
   div32_64 (div64_divisor forcedep zero k sumv) \<noteq> Inl DivByZero \<and>
   div64_64 (div64_divisor forcedep zero k sumv) \<noteq> Inl DivByZero"
proof -
  assume z: "zero = 0" and lt: "iters < - 1"
    and st: "div64_state F forcedep zero iters (k, sumv)" and le: "k \<le> iters"
  from div64_state_bounds [OF lt st] have k1: "1 \<le> k" by simp
  then have "k \<noteq> 0" by auto
  with z k1 show ?thesis
    by (simp add: div64_divisor_zero div32_64_def div64_64_def)
qed

theorem div64_divisor_is_counter_witness:
  "(0::u64) = 0 \<and> (5::u64) < - 1 \<and> div64_state div32_64 True 0 5 (1 + 1, 0 + 0x12345678) \<and>
   (1 + 1 :: u64) \<le> 5 \<and> div64_divisor True 0 (1 + 1) (0 + 0x12345678) = 2 \<and>
   div32_64 (div64_divisor True 0 (1 + 1) (0 + 0x12345678)) = Inr 0x91A2B3C"
proof -
  have st: "div64_state div32_64 True 0 5 (1 + 1, 0 + 0x12345678)"
    by (rule div64_pass [OF div64_init]) (simp_all add: div64_divisor_def div32_64_def)
  have lt: "(5::u64) < - 1" and le: "(1 + 1 :: u64) \<le> 5" by simp_all
  from div64_divisor_is_counter [OF refl lt st le] st lt le show ?thesis
    by (simp add: div32_64_def)
qed

section \<open>Properties of the strided stores\<close>

lemma stores_strided_pass: "stores (strided_pass w args i s) = stores s @
   [region args + ((i * stride args) AND mask args),
    region args + ((i * stride args) AND mask args) + stride args,
    region args + ((i * stride args) AND mask args) + stride args + stride args,
    region args + ((i * stride args) AND mask args) + stride args + stride args + stride args]"
  by (simp add: strided_pass_def store_zero_def Let_def)

lemma strided_state_stores:
  assumes e: "stores s0 = []"
  shows "strided_state w args iters s0 st \<Longrightarrow>
    \<exists>m. fst st = of_nat (4 * m) \<and> length (stores (snd st)) = 4 * m \<and>
      (\<forall>j < 4 * m. stores (snd st) ! j =
         region args + ((of_nat (4 * (j div 4)) * stride args) AND mask args)
           + of_nat (j mod 4) * stride args)"
proof (induction rule: strided_state.induct)
  case strided_init
  show ?case using e by (intro exI [of _ 0]) simp
next
  case (strided_next i s)
  then obtain m where i: "i = of_nat (4 * m)" and len: "length (stores s) = 4 * m"
    and old: "\<forall>j < 4 * m. stores s ! j =
         region args + ((of_nat (4 * (j div 4)) * stride args) AND mask args)
           + of_nat (j mod 4) * stride args" by auto
  have "stores (strided_pass w args i s) ! j =
         region args + ((of_nat (4 * (j div 4)) * stride args) AND mask args)
           + of_nat (j mod 4) * stride args" if j: "j < 4 * Suc m" for j
  proof (cases "j < 4 * m")
    case True
    then show ?thesis using old len by (simp add: stores_strided_pass nth_append)
  next
    case False
    define t where "t = j - 4 * m"
    have t: "t < 4" and jt: "j = 4 * m + t" using j False by (simp_all add: t_def)
    have dm: "j div 4 = m" "j mod 4 = t" using t by (simp_all add: jt)
    have "stores (strided_pass w args i s) ! j =
        [region args + ((i * stride args) AND mask args),
         region args + ((i * stride args) AND mask args) + stride args,
         region args + ((i * stride args) AND mask args) + stride args + stride args,
         region args + ((i * stride args) AND mask args) + stride args + stride args + stride args] ! t"
      by (simp add: stores_strided_pass nth_append len jt)
    also have "\<dots> = region args + ((i * stride args) AND mask args) + of_nat t * stride args"
    proof -
      from t have "t = 0 \<or> t = 1 \<or> t = 2 \<or> t = 3" by arith
      then show ?thesis by (elim disjE) (simp_all add: algebra_simps)
    qed
    finally show ?thesis by (simp add: dm i)
  qed
  moreover have "i + 4 = of_nat (4 * Suc m)" by (simp add: i)
  moreover have "length (stores (strided_pass w args i s)) = 4 * Suc m"
    by (simp add: stores_strided_pass len)
  ultimately show ?case by (intro exI [of _ "Suc m"]) simp
qed

lemma strided_state_loop:
  "strided_state w args iters s0 st \<Longrightarrow>
   strided_loop w args iters 0 s0 = strided_loop w args iters (fst st) (snd st)"
proof (induction rule: strided_state.induct)
  case strided_init
  show ?case by simp
next
  case (strided_next i s)
  then show ?case by (simp add: strided_loop.simps [of w args iters i s])
qed

lemma masked_less: "n < 64 \<Longrightarrow> (x AND (2 ^ n - 1 :: u64)) < 2 ^ n"
  by (simp add: and_mask_less' flip: mask_eq_decr_exp)

text \<open>
  Claim C1, as stated, fails: only the first store of a pass is at the masked offset. With
  a region of 64 bytes at address \<open>0x1000\<close>, stride 64, mask 63 and iteration count 1, the
  one-byte kernel stores at the offsets 0, 64, 128 and 192, and the last three are not
  below the region size 64.
\<close>

theorem strided_stores_escape_region:
  "map_option (\<lambda>(r, s). map (\<lambda>a. a - 0x1000) (stores s))
     (strided_stores_1byte 1 \<lparr>region = 0x1000, stride = 64, mask = 64 - 1\<rparr>
        \<lparr>mem = (\<lambda>x. 0xFF), stores = []\<rparr>)
   = Some [0, 64, 128, 192] \<and> \<not> (64 :: u64) < 64"
  by (simp add: strided_stores_1byte_def strided_stores_def strided_loop.simps
      stores_strided_pass)

text \<open>
  Claim C1, amended. Let the region size be a power of two and the mask be the size minus
  one. For any stride, element width and iteration count, the \<open>j\<close>-th store of the kernel
  (counted from 0, whether or not the loop ends) is the store number \<open>j mod 4\<close> of the pass
  with counter \<open>i = 4 * (j div 4)\<close>, and its offset from the region base is
  \<open>((i * stride) AND mask) + (j mod 4) * stride\<close>. So the first store of every pass is at an
  offset below the region size; the offsets of the other three are that offset plus one,
  two and three times the stride, and are not masked.
\<close>

theorem strided_store_offsets:
  "stores s0 = [] \<Longrightarrow> n < 64 \<Longrightarrow> sz = 2 ^ n \<Longrightarrow> mask args = sz - 1 \<Longrightarrow>
   strided_state w args iters s0 (i, s) \<Longrightarrow> j < length (stores s) \<Longrightarrow>
   stores s ! j - region args =
     ((of_nat (4 * (j div 4)) * stride args) AND mask args) + of_nat (j mod 4) * stride args \<and>
   (j mod 4 = 0 \<longrightarrow> stores s ! j - region args < sz)"
proof -
  assume e: "stores s0 = []" and n: "n < 64" and sz: "sz = 2 ^ n" and m: "mask args = sz - 1"
    and st: "strided_state w args iters s0 (i, s)" and j: "j < length (stores s)"
  from strided_state_stores [OF e st] j
  have eq: "stores s ! j = region args + ((of_nat (4 * (j div 4)) * stride args) AND mask args)
      + of_nat (j mod 4) * stride args"
    by auto
  have "(x AND mask args) < sz" for x
    using masked_less [OF n] by (simp add: m sz)
  then show ?thesis by (simp add: eq)
qed

theorem strided_store_offsets_witness:
  "stores \<lparr>mem = (\<lambda>x. 0xFF), stores = []\<rparr> = [] \<and> (6::nat) < 64 \<and> (64::u64) = 2 ^ 6 \<and>
   mask \<lparr>region = 0x1000, stride = 64, mask = 63\<rparr> = 64 - 1 \<and>
   strided_state 8 \<lparr>region = 0x1000, stride = 64, mask = 63\<rparr> 1 \<lparr>mem = (\<lambda>x. 0xFF), stores = []\<rparr>
     (0 + 4, strided_pass 8 \<lparr>region = 0x1000, stride = 64, mask = 63\<rparr> 0
       \<lparr>mem = (\<lambda>x. 0xFF), stores = []\<rparr>) \<and>
   stores (strided_pass 8 \<lparr>region = 0x1000, stride = 64, mask = 63\<rparr> 0
       \<lparr>mem = (\<lambda>x. 0xFF), stores = []\<rparr>) ! 0 - 0x1000 = 0 \<and>
   stores (strided_pass 8 \<lparr>region = 0x1000, stride = 64, mask = 63\<rparr> 0
       \<lparr>mem = (\<lambda>x. 0xFF), stores = []\<rparr>) ! 0 - 0x1000 < (64 :: u64)"
proof -
  let ?args = "\<lparr>region = 0x1000, stride = 64, mask = 63\<rparr>"
  let ?s0 = "\<lparr>mem = (\<lambda>x. 0xFF :: u8), stores = []\<rparr>"
  have st: "strided_state 8 ?args 1 ?s0 (0 + 4, strided_pass 8 ?args 0 ?s0)"
    by (rule strided_next [OF strided_init]) simp
  have e: "stores ?s0 = []" and n: "(6::nat) < 64" and sz: "(64::u64) = 2 ^ 6"
    and m: "mask ?args = 64 - 1"
    by simp_all
  have j: "0 < length (stores (strided_pass 8 ?args 0 ?s0))"
    by (simp add: stores_strided_pass)
  from strided_store_offsets [OF e n sz m st j] st show ?thesis
    by simp
qed

section \<open>Properties of the table lookup\<close>

lemma xor_byte_less: "c \<le> 0xff \<Longrightarrow> unat ((c :: u32) XOR ucast (b :: u8)) < 256"
proof -
  assume "c \<le> 0xff"
  then have c: "uint c < 2 ^ 8" by (simp add: word_le_def)
  have b: "uint (ucast b :: u32) < 2 ^ 8"
    using uint_bounded [of b] by (simp add: uint_up_ucast is_up)
  have "uint c XOR uint (ucast b :: u32) < 2 ^ 8"
    using c b by (intro XOR_upper) simp_all
  then have "uint (c XOR ucast b) < uint (256 :: u32)" by (simp add: uint_xor)
  then have "c XOR ucast b < 256" by (simp only: word_less_def)
  then show ?thesis by (simp add: word_less_nat_alt)
qed

lemma unat_ucast_32_64: "unat (ucast (w :: u32) :: u64) = unat w"
proof -
  have "unat w < 2 ^ 32" using unsigned_less [of w] by simp
  then have "unat w < 2 ^ 64" by simp
  then show ?thesis by (simp add: unsigned_ucast_eq take_bit_nat_eq_self)
qed

lemma crc8_table_zero: "c \<le> 0xff \<Longrightarrow> rd 1 crc8_table (ucast ((c :: u32) XOR ucast (b :: u8))) = Inr 0"
proof -
  assume "c \<le> 0xff"
  then have "unat (c XOR ucast b) < 256" by (rule xor_byte_less)
  moreover have "unat (ucast (c XOR ucast b) :: u64) = unat (c XOR ucast b)"
    by (rule unat_ucast_32_64)
  ultimately show ?thesis
    by (simp add: rd_def crc8_table_def)
qed

lemma crc8_loop_zero_table:
  "unat endp \<le> length buf \<Longrightarrow> crc \<le> 0xff \<Longrightarrow>
   crc8_loop buf data endp crc = Inr (if data < endp then 0 else crc)"
proof (induction buf data endp crc rule: crc8_loop.induct)
  case (1 buf data endp crc)
  show ?case
  proof (cases "data < endp")
    case False
    then show ?thesis by (subst crc8_loop.simps) simp
  next
    case True
    then have "unat data < length buf" using "1.prems"(1) by (simp add: word_less_nat_alt)
    then have r: "rd 1 buf data = Inr (buf ! unat data)"
      using unsigned_less [of data] by (simp add: rd_def)
    have t: "rd 1 crc8_table (ucast (crc XOR ucast (buf ! unat data))) = Inr 0"
      using "1.prems"(2) by (rule crc8_table_zero)
    have "crc8_loop buf (data + 1) endp (ucast (0 :: u8))
        = Inr (if data + 1 < endp then 0 else ucast (0::u8))"
      using True r t "1.prems"(1) by (intro "1.IH") simp_all
    then show ?thesis using True r t by (subst crc8_loop.simps) simp
  qed
qed

lemma crc8_zero_table: "crc8 crc buf 4096 = Inr 0" if "length buf = 4096"
  using that crc8_loop_zero_table [of 4096 buf "crc AND 0xff" 0]
  by (simp add: crc8_def word_and_le1)

lemma crc8_bench_loop_zero: "length buf = 4096 \<Longrightarrow> crc8_bench_loop buf iters crc = Inr 0"
proof (induction buf iters crc rule: crc8_bench_loop.induct)
  case (1 buf iters crc)
  then show ?case
    by (subst crc8_bench_loop.simps) (simp add: crc8_zero_table Let_def)
qed

text \<open>
  Claim C7. With the all-zero 256-entry table, for every iteration count \<open>\<ge> 1\<close> and every
  content of the 4096-byte data buffer, the table-lookup kernel returns 0: by
  \<open>crc8_loop_zero_table\<close> the accumulator is 0 after the first lookup and stays 0.
\<close>

theorem crc8_bench_zero:
  "length buf = 4096 \<Longrightarrow> 1 \<le> iters \<Longrightarrow> crc8_bench iters buf = Inr 0"
  by (simp add: crc8_bench_def crc8_bench_loop_zero)

theorem crc8_bench_zero_witness:
  "length (replicate 4096 (0x5A :: u8)) = 4096 \<and> (1::u64) \<le> 3 \<and>
   crc8_bench 3 (replicate 4096 0x5A) = Inr 0"
  using crc8_bench_zero [of "replicate 4096 0x5A" 3] by simp

section \<open>Properties of array reads\<close>

lemma rd_in_range: "unat i < length xs \<Longrightarrow> length xs * esz \<le> 2 ^ 64 \<Longrightarrow> 0 < esz \<Longrightarrow> rd esz xs i = Inr (xs ! unat i)"
proof -
  assume a: "unat i < length xs" "length xs * esz \<le> 2 ^ 64" "0 < esz"
  then have "unat i * esz < length xs * esz" by simp
  with a(2) have "unat i * esz < 2 ^ 64" by linarith
  with a(1) show ?thesis by (simp add: rd_def)
qed

lemma drop_take_step: "i < n \<Longrightarrow> n \<le> length xs \<Longrightarrow> drop i (take n xs) = xs ! i # drop (Suc i) (take n xs)"
  by (simp add: Cons_nth_drop_Suc [symmetric])

section \<open>Properties of the multiply chains\<close>

text \<open>
  On an array that holds at least \<open>len\<close> elements, \<open>mul_chain\<close> multiplies the elements
  with index below \<open>len\<close>; so does \<open>mul_chain4\<close> when \<open>len\<close> is a multiple of four, spread
  over its four accumulators.
\<close>

lemma mul_chain_loop_prod:
  "unat len \<le> length data \<Longrightarrow> length data * 4 \<le> 2 ^ 64 \<Longrightarrow>
   mul_chain_loop data len i product = Inr (product * prod_list (drop (unat i) (take (unat len) data)))"
proof (induction data len i product rule: mul_chain_loop.induct)
  case (1 data len i product)
  show ?case
  proof (cases "i < len")
    case False
    then have "unat len \<le> unat i" by (simp add: word_less_nat_alt)
    then show ?thesis using False by (subst mul_chain_loop.simps) simp
  next
    case True
    then have lt: "unat i < unat len" by (simp add: word_less_nat_alt)
    then have u: "unat (i + 1) = Suc (unat i)" using True by unat_arith
    have r: "rd 4 data i = Inr (data ! unat i)"
      using lt "1.prems" by (intro rd_in_range) simp_all
    have "mul_chain_loop data len (i + 1) (product * data ! unat i) =
        Inr (product * data ! unat i * prod_list (drop (unat (i + 1)) (take (unat len) data)))"
      using True r "1.prems" by (intro "1.IH") simp_all
    then show ?thesis using True r lt "1.prems"(1)
      by (subst mul_chain_loop.simps) (simp add: u drop_take_step [of "unat i"] mult.assoc)
  qed
qed

lemma mul_chain4_loop_prod:
  "unat len \<le> length data \<Longrightarrow> length data * 4 \<le> 2 ^ 64 \<Longrightarrow> 4 dvd unat len \<Longrightarrow> 4 dvd unat i \<Longrightarrow>
   \<exists>q1 q2 q3 q4. mul_chain4_loop data len i p1 p2 p3 p4 = Inr (q1, q2, q3, q4) \<and>
     q1 * q2 * q3 * q4 = p1 * p2 * p3 * p4 * prod_list (drop (unat i) (take (unat len) data))"
proof (induction data len i p1 p2 p3 p4 rule: mul_chain4_loop.induct)
  case (1 data len i p1 p2 p3 p4)
  show ?case
  proof (cases "i < len")
    case False
    then have "unat len \<le> unat i" by (simp add: word_less_nat_alt)
    then show ?thesis using False by (subst mul_chain4_loop.simps) simp
  next
    case True
    then have lt: "unat i < unat len" by (simp add: word_less_nat_alt)
    with "1.prems"(3,4) have le4: "unat i + 4 \<le> unat len" by presburger
    have b: "unat len < 2 ^ 64" using unsigned_less [of len] by simp
    have u: "unat (i + 1) = unat i + 1" "unat (i + 2) = unat i + 2" "unat (i + 3) = unat i + 3"
      "unat (i + 4) = unat i + 4"
      using le4 b by (simp_all add: unat_word_ariths)
    have r: "rd 4 data (i + 0) = Inr (data ! unat i)" "rd 4 data (i + 1) = Inr (data ! (unat i + 1))"
      "rd 4 data (i + 2) = Inr (data ! (unat i + 2))" "rd 4 data (i + 3) = Inr (data ! (unat i + 3))"
      using le4 "1.prems"(1,2) by (simp_all add: rd_in_range u)
    have d: "4 dvd unat (i + 4)" using "1.prems"(4) by (simp add: u)
    obtain q1 q2 q3 q4 where
      q: "mul_chain4_loop data len (i + 4) (p1 * data ! unat i) (p2 * data ! (unat i + 1))
           (p3 * data ! (unat i + 2)) (p4 * data ! (unat i + 3)) = Inr (q1, q2, q3, q4)"
      and e: "q1 * q2 * q3 * q4 = (p1 * data ! unat i) * (p2 * data ! (unat i + 1)) *
           (p3 * data ! (unat i + 2)) * (p4 * data ! (unat i + 3)) *
           prod_list (drop (unat (i + 4)) (take (unat len) data))"
      using "1.IH" [OF True r "1.prems"(1,2,3) d] by blast
    have dr: "drop (unat i) (take (unat len) data) =
        data ! unat i # data ! (unat i + 1) # data ! (unat i + 2) # data ! (unat i + 3) #
          drop (unat i + 4) (take (unat len) data)"
      using le4 "1.prems"(1)
      by (simp add: drop_take_step [of "unat i"] drop_take_step [of "Suc (unat i)"]
          drop_take_step [of "Suc (Suc (unat i))"] drop_take_step [of "Suc (Suc (Suc (unat i)))"]
          eval_nat_numeral)
    show ?thesis using True r q e
      by (subst mul_chain4_loop.simps) (simp add: dr u mult_ac)
  qed
qed

text \<open>
  Claim C6, as stated, fails: on the four-element array \<open>[2, 3, 5, 7]\<close> with length 1 both
  kernels are defined (neither reads outside the array), the single-accumulator chain
  returns \<open>data[0] = 2\<close>, and the four-accumulator chain, whose only pass reads
  \<open>data[0]\<close> to \<open>data[3]\<close>, returns 210.
\<close>

theorem mul_chain4_differs_from_mul_chain:
  "mul_chain [2, 3, 5, 7] 1 123 = Inr 2 \<and> mul_chain4 [2, 3, 5, 7] 1 123 = Inr 210"
  by (simp add: mul_chain_def mul_chain4_def mul_chain_loop.simps mul_chain4_loop.simps rd_def)

text \<open>
  Claim C6, amended. For every input data array and every length (shared by both calls)
  that is a multiple of four and not larger than the array, the single-accumulator and the
  four-accumulator multiply chain are both defined and produce the same final product in
  the 32-bit wrapping ring: the product of the first \<open>len\<close> elements. (The array occupies
  at most the \<open>2 ^ 64\<close> bytes of the address space.)
\<close>

theorem mul_chain_eq_mul_chain4:
  "4 dvd unat len \<Longrightarrow> unat len \<le> length data \<Longrightarrow> length data * 4 \<le> 2 ^ 64 \<Longrightarrow>
   mul_chain data len m = Inr (prod_list (take (unat len) data)) \<and>
   mul_chain4 data len m = Inr (prod_list (take (unat len) data))"
proof -
  assume d: "4 dvd unat len" and le: "unat len \<le> length data" and b: "length data * 4 \<le> 2 ^ 64"
  have "mul_chain_loop data len 0 1 = Inr (1 * prod_list (drop (unat (0 :: u64)) (take (unat len) data)))"
    using le b by (rule mul_chain_loop_prod)
  then have one: "mul_chain data len m = Inr (prod_list (take (unat len) data))"
    by (simp add: mul_chain_def sink_def)
  obtain q1 q2 q3 q4 where "mul_chain4_loop data len 0 1 1 1 1 = Inr (q1, q2, q3, q4)"
    and "q1 * q2 * q3 * q4 = 1 * 1 * 1 * 1 * prod_list (drop (unat (0 :: u64)) (take (unat len) data))"
    using mul_chain4_loop_prod [OF le b d, of 0 1 1 1 1] by auto
  then have "mul_chain4 data len m = Inr (prod_list (take (unat len) data))"
    by (simp add: mul_chain4_def sink_def)
  with one show ?thesis by simp
qed

theorem mul_chain_eq_mul_chain4_witness:
  "4 dvd unat (4 :: u64) \<and> unat (4 :: u64) \<le> length [2, 3, 5, 7 :: u32] \<and>
   length [2, 3, 5, 7 :: u32] * 4 \<le> 2 ^ 64 \<and>
   mul_chain [2, 3, 5, 7] 4 123 = Inr 210 \<and> mul_chain4 [2, 3, 5, 7] 4 123 = Inr 210"
  using mul_chain_eq_mul_chain4 [of 4 "[2, 3, 5, 7]" 123] by simp

section \<open>Properties of the indirect additions\<close>

lemma rd_zero_offsets: "unat j < n \<Longrightarrow> n \<le> 2 ^ 62 \<Longrightarrow> rd 4 (replicate n (0 :: u32)) j = Inr 0"
  by (simp add: rd_def)

lemma rd_first: "rd 4 (v # rest) 0 = Inr v"
  by (simp add: rd_def)

lemma add_indirect_loop_zero_offsets:
  "unat i = 2 * Suc k \<Longrightarrow> unat i \<le> n \<Longrightarrow> n \<le> 2 ^ 62 \<Longrightarrow>
   add_indirect_loop (v # rest) (replicate n 0) i sum1 sum2 =
     Inr (sum1 + of_nat (Suc k) * v, sum2 + of_nat (Suc k) * v)"
proof (induction k arbitrary: i sum1 sum2)
  case 0
  then have i: "i = 2" by (simp add: word_unat_eq_iff)
  from 0 have n: "2 \<le> n" "n \<le> 2 ^ 62" by simp_all
  then have r: "rd 4 (replicate n (0 :: u32)) (2 - 1) = Inr 0" "rd 4 (replicate n (0 :: u32)) (2 - 2) = Inr 0"
    by (simp_all add: rd_zero_offsets)
  show ?case unfolding i using r
    by (subst add_indirect_loop.simps) (simp add: rd_first)
next
  case (Suc k)
  have u1: "unat (i - 1) = unat i - 1" and u2: "unat (i - 2) = unat i - 2"
    using Suc.prems(1) by (simp_all add: unat_sub_if_size)
  have nz: "i - 2 \<noteq> 0" using u2 Suc.prems(1) by (simp add: word_unat_eq_iff)
  have r: "rd 4 (replicate n (0 :: u32)) (i - 1) = Inr 0" "rd 4 (replicate n (0 :: u32)) (i - 2) = Inr 0"
    using Suc.prems u1 u2 by (simp_all add: rd_zero_offsets)
  have "add_indirect_loop (v # rest) (replicate n 0) (i - 2) (sum1 + v) (sum2 + v) =
     Inr (sum1 + v + of_nat (Suc k) * v, sum2 + v + of_nat (Suc k) * v)"
    using Suc.prems u2 by (intro Suc.IH) simp_all
  then show ?case using r nz
    by (subst add_indirect_loop.simps) (simp add: rd_first algebra_simps)
qed

lemma add_indirect_inner_zero_offsets:
  assumes "2 \<le> len" "even (unat len)" "unat len \<le> 2 ^ 62"
  shows "add_indirect_inner (v # rest) (replicate (unat len) 0) len = Inr (of_nat (unat len) * v)"
proof -
  from assms(1) have "2 \<le> unat len" by (simp add: word_le_nat_alt)
  with assms(2) obtain k where k: "unat len = 2 * Suc k"
    by (metis evenE Suc_1 Suc_le_D not0_implies_Suc mult_0_right Zero_not_Suc)
  have m: "len mod 2 = 0" using assms(2) by (simp add: word_unat_eq_iff unat_mod_distrib)
  have "add_indirect_loop (v # rest) (replicate (unat len) 0) len 0 0 =
     Inr (0 + of_nat (Suc k) * v, 0 + of_nat (Suc k) * v)"
    using k assms(3) by (intro add_indirect_loop_zero_offsets) simp_all
  moreover have "of_nat (Suc k) * v + of_nat (Suc k) * v = (of_nat (unat len) * v :: u32)"
    by (simp add: k algebra_simps)
  ultimately show ?thesis using assms(1) m
    by (simp add: add_indirect_inner_def sink_def)
qed

lemma add_indirect_shift_loop_zero_offsets:
  "unat i = 2 * Suc k \<Longrightarrow> unat i \<le> n \<Longrightarrow> n \<le> 2 ^ 62 \<Longrightarrow>
   add_indirect_shift_loop (v # rest) (replicate n 0) i sum1 sum2 =
     Inr (sum1 + of_nat (Suc k) * v, sum2 + of_nat (Suc k) * v)"
proof (induction k arbitrary: i sum1 sum2)
  case 0
  then have i: "i = 2" by (simp add: word_unat_eq_iff)
  from 0 have n: "2 \<le> n" "n \<le> 2 ^ 62" by simp_all
  then have r: "rd 4 (replicate n (0 :: u32)) (2 - 2 + 1) = Inr 0" "rd 4 (replicate n (0 :: u32)) (2 - 2) = Inr 0"
    by (simp_all add: rd_zero_offsets)
  show ?case unfolding i using r
    by (subst add_indirect_shift_loop.simps) (simp add: rd_first)
next
  case (Suc k)
  have u1: "unat (i - 2 + 1) = unat i - 1" and u2: "unat (i - 2) = unat i - 2"
    using Suc.prems(1) unsigned_less [of i] by (simp_all add: unat_sub_if_size unat_word_ariths)
  have nz: "i - 2 \<noteq> 0" using u2 Suc.prems(1) by (simp add: word_unat_eq_iff)
  have r: "rd 4 (replicate n (0 :: u32)) (i - 2 + 1) = Inr 0" "rd 4 (replicate n (0 :: u32)) (i - 2) = Inr 0"
    using Suc.prems u1 u2 by (simp_all add: rd_zero_offsets)
  have "add_indirect_shift_loop (v # rest) (replicate n 0) (i - 2) (sum1 + v) (sum2 + v) =
     Inr (sum1 + v + of_nat (Suc k) * v, sum2 + v + of_nat (Suc k) * v)"
    using Suc.prems u2 by (intro Suc.IH) simp_all
  then show ?case using r nz
    by (subst add_indirect_shift_loop.simps) (simp add: rd_first algebra_simps)
qed

text \<open>
  Claim C5, as stated, fails when \<open>L\<close> times \<open>v\<close> does not fit in the 32 bits of the result:
  with \<open>L = 2\<close> and \<open>v = 2 ^ 31\<close> the kernel returns 0, and \<open>L\<close> times \<open>v\<close> is \<open>2 ^ 32\<close>.
\<close>

theorem add_indirect_inner_overflows:
  "map_sum id unat (add_indirect_inner [0x80000000] [0, 0] 2) = Inr 0 \<and>
   2 * unat (0x80000000 :: u32) = 4294967296"
  by (simp add: add_indirect_inner_def add_indirect_loop.simps rd_def sink_def)

text \<open>
  Claim C5, amended. For the gather kernel given an all-zero offsets array of even length
  \<open>L \<ge> 2\<close> and a data buffer whose first element is \<open>v\<close>, the result equals \<open>L\<close> times \<open>v\<close>
  in 32-bit wrapping arithmetic, that is \<open>(L * v) mod 2 ^ 32\<close>. (The offsets array
  occupies at most the \<open>2 ^ 64\<close> bytes of the address space: \<open>L \<le> 2 ^ 62\<close>.)
\<close>

theorem add_indirect_inner_all_zero_offsets:
  "2 \<le> len \<Longrightarrow> even (unat len) \<Longrightarrow> unat len \<le> 2 ^ 62 \<Longrightarrow>
   add_indirect_inner (v # rest) (replicate (unat len) 0) len = Inr (of_nat (unat len) * v) \<and>
   unat (of_nat (unat len) * v :: u32) = (unat len * unat v) mod 2 ^ 32"
proof -
  assume a: "2 \<le> len" "even (unat len)" "unat len \<le> 2 ^ 62"
  have "unat (ucast len :: u32) = unat len mod 2 ^ 32"
    by (simp add: unsigned_ucast_eq take_bit_eq_mod)
  then have "unat (ucast len * v) = (unat len * unat v) mod 2 ^ 32"
    by (simp add: unat_word_ariths mod_mult_left_eq)
  with a show ?thesis
    by (simp add: add_indirect_inner_zero_offsets)
qed

theorem add_indirect_inner_all_zero_offsets_witness:
  "(2 :: u64) \<le> 4 \<and> even (unat (4 :: u64)) \<and> unat (4 :: u64) \<le> 2 ^ 62 \<and>
   add_indirect_inner [3, 9] (replicate (unat (4 :: u64)) 0) 4 = Inr 12"
  using add_indirect_inner_all_zero_offsets [of 4 3 "[9]"] by simp

section \<open>Properties of the benchmark loops\<close>

text \<open>
  On a buffer of 4096 elements the inner kernels read inside their arrays, so they return
  a value; the \<^verbatim>\<open>do ... while (--iters != 0)\<close> loops around them end for every count.
\<close>

lemma sum_halves_loop_total:
  "unat len \<le> length data \<Longrightarrow> length data * 4 \<le> 2 ^ 64 \<Longrightarrow> even (unat len) \<Longrightarrow> even (unat i) \<Longrightarrow>
   \<exists>r. sum_halves_loop data len i tp bt = Inr r"
proof (induction data len i tp bt rule: sum_halves_loop.induct)
  case (1 data len i tp bt)
  show ?case
  proof (cases "i < len")
    case False
    then show ?thesis by (subst sum_halves_loop.simps) simp
  next
    case True
    then have lt: "unat i < unat len" by (simp add: word_less_nat_alt)
    with "1.prems"(3,4) have le2: "unat i + 2 \<le> unat len" by presburger
    have b: "unat len < 2 ^ 64" using unsigned_less [of len] by simp
    have u: "unat (i + 1) = unat i + 1" "unat (i + 2) = unat i + 2"
      using le2 b by (simp_all add: unat_word_ariths)
    have r: "rd 4 data i = Inr (data ! unat i)" "rd 4 data (i + 1) = Inr (data ! (unat i + 1))"
      using le2 "1.prems"(1,2) by (simp_all add: rd_in_range u)
    have d: "even (unat (i + 2))" using "1.prems"(4) by (simp add: u)
    from "1.IH" [OF True r(1) refl refl r(2) refl refl "1.prems"(1,2,3) d]
    show ?thesis using True r
      by (subst sum_halves_loop.simps) (simp add: Let_def)
  qed
qed

lemma mul_by_loop_total:
  "unat len \<le> length data \<Longrightarrow> length data * 4 \<le> 2 ^ 64 \<Longrightarrow> 1 \<le> len \<Longrightarrow>
   \<exists>r. mul_by_loop data len m i sumv = Inr r"
proof (induction data len m i sumv rule: mul_by_loop.induct)
  case (1 data len m i sumv)
  show ?case
  proof (cases "i < len - 1")
    case False
    then show ?thesis by (subst mul_by_loop.simps) simp
  next
    case True
    have l1: "unat (len - 1) = unat len - 1" using "1.prems"(3) by unat_arith
    from True have lt: "unat i < unat len - 1" by (simp add: word_less_nat_alt l1)
    have b: "unat len < 2 ^ 64" using unsigned_less [of len] by simp
    have u: "unat (i + 1) = unat i + 1"
      using lt b by (simp_all add: unat_word_ariths)
    have r: "rd 4 data i = Inr (data ! unat i)" "rd 4 data (i + 1) = Inr (data ! (unat i + 1))"
      using lt "1.prems"(1,2) by (simp_all add: rd_in_range u)
    from "1.IH" [OF True r "1.prems"]
    show ?thesis using True r
      by (subst mul_by_loop.simps) simp
  qed
qed

lemma mul_by_bench_loop_unit:
  "(\<And>x. \<exists>r. f buf 4096 x = Inr r) \<Longrightarrow> mul_by_bench_loop f buf x iters = Inr ()"
proof (induction f buf x iters rule: mul_by_bench_loop.induct)
  case (1 f buf x iters)
  from "1.prems" obtain r where r: "f buf 4096 x = Inr r" by blast
  show ?case using r "1.IH" [OF r refl refl] "1.prems"
    by (subst mul_by_bench_loop.simps) (simp add: Let_def)
qed

lemma add_indirect_f_loop_unit:
  "\<exists>r. f buf offsets 4096 = Inr r \<Longrightarrow> add_indirect_f_loop f buf offsets iters = Inr ()"
proof (induction f buf offsets iters rule: add_indirect_f_loop.induct)
  case (1 f buf offsets iters)
  from "1.prems" obtain r where r: "f buf offsets 4096 = Inr r" by blast
  show ?case using r "1.IH" [OF r refl refl] "1.prems"
    by (subst add_indirect_f_loop.simps) (simp add: Let_def)
qed

lemma sum_halves_bench_loop_unit:
  "\<exists>r. sum_halves buf 4096 = Inr r \<Longrightarrow> sum_halves_bench_loop buf iters = Inr ()"
proof (induction buf iters rule: sum_halves_bench_loop.induct)
  case (1 buf iters)
  from "1.prems" obtain r where r: "sum_halves buf 4096 = Inr r" by blast
  show ?case using r "1.IH" [OF r refl refl] "1.prems"
    by (subst sum_halves_bench_loop.simps) (simp add: Let_def)
qed

text \<open>
  Claim C10. The gather-summation kernels (plain and packed-offset), the multiply
  benchmark kernels and the halves-summation benchmark kernel return the constant 0 for
  every iteration count \<open>\<ge> 1\<close> and every content of their 4096-element buffer: the inner
  sums go to \<open>sink\<close> only and the kernels end with \<^verbatim>\<open>return 0\<close>.
\<close>

theorem bench_kernels_return_zero:
  "length buf = 4096 \<Longrightarrow> 1 \<le> iters \<Longrightarrow>
   add_indirect iters buf = Inr 0 \<and> add_indirect_shift iters buf = Inr 0 \<and>
   mul_by_bench iters buf = Inr 0 \<and> mul_chain_bench iters buf = Inr 0 \<and>
   mul_chain4_bench iters buf = Inr 0 \<and> sum_halves_bench iters buf = Inr 0"
proof -
  assume len: "length buf = 4096"
  then obtain v rest where buf: "buf = v # rest" by (cases buf) auto
  have le: "unat (4096 :: u64) \<le> length buf" and b: "length buf * 4 \<le> 2 ^ 64"
    by (simp_all add: len)
  have "add_indirect_inner buf (replicate (unat (4096 :: u64)) 0) 4096 = Inr (of_nat (unat (4096 :: u64)) * v)"
    unfolding buf by (rule add_indirect_inner_zero_offsets) simp_all
  then have "add_indirect_f_loop add_indirect_inner buf (replicate 4096 0) iters = Inr ()"
    by (intro add_indirect_f_loop_unit) simp
  then have g1: "add_indirect iters buf = Inr 0"
    by (simp add: add_indirect_def add_indirect_f_def)
  have "add_indirect_shift_loop buf (replicate 4096 0) 4096 0 0 =
      Inr (0 + of_nat (Suc 2047) * v, 0 + of_nat (Suc 2047) * v)"
    unfolding buf by (rule add_indirect_shift_loop_zero_offsets) simp_all
  then have "\<exists>r. add_indirect_shift_inner buf (replicate 4096 0) 4096 = Inr r"
    by (simp add: add_indirect_shift_inner_def)
  then have "add_indirect_f_loop add_indirect_shift_inner buf (replicate 4096 0) iters = Inr ()"
    by (rule add_indirect_f_loop_unit)
  then have g2: "add_indirect_shift iters buf = Inr 0"
    by (simp add: add_indirect_shift_def add_indirect_f_def)
  have "\<exists>r. mul_by buf 4096 x = Inr r" for x
    using mul_by_loop_total [OF le b, of x 0 0] by (auto simp: mul_by_def)
  then have "mul_by_bench_loop mul_by buf x iters = Inr ()" for x
    by (rule mul_by_bench_loop_unit)
  then have m0: "mul_by_bench iters buf = Inr 0"
    by (simp add: mul_by_bench_def mul_by_bench_f_def)
  have "\<exists>r. mul_chain buf 4096 x = Inr r" for x
    using mul_chain_loop_prod [OF le b, of 0 1] by (simp add: mul_chain_def)
  then have "mul_by_bench_loop mul_chain buf x iters = Inr ()" for x
    by (rule mul_by_bench_loop_unit)
  then have m1: "mul_chain_bench iters buf = Inr 0"
    by (simp add: mul_chain_bench_def mul_by_bench_f_def)
  have "\<exists>r. mul_chain4 buf 4096 x = Inr r" for x
    using mul_chain4_loop_prod [OF le b, of 0 1 1 1 1] by (auto simp: mul_chain4_def)
  then have "mul_by_bench_loop mul_chain4 buf x iters = Inr ()" for x
    by (rule mul_by_bench_loop_unit)
  then have m4: "mul_chain4_bench iters buf = Inr 0"
    by (simp add: mul_chain4_bench_def mul_by_bench_f_def)
  have "\<exists>r. sum_halves buf 4096 = Inr r"
    using sum_halves_loop_total [OF le b, of 0 0 0] by (simp add: sum_halves_def)
  then have "sum_halves_bench_loop buf iters = Inr ()"
    by (rule sum_halves_bench_loop_unit)
  then have h: "sum_halves_bench iters buf = Inr 0"
    by (simp add: sum_halves_bench_def)
  from g1 g2 m0 m1 m4 h show ?thesis by simp
qed

theorem bench_kernels_return_zero_witness:
  "length (replicate 4096 (7 :: u32)) = 4096 \<and> (1 :: u64) \<le> 2 \<and>
   add_indirect 2 (replicate 4096 7) = Inr 0 \<and> add_indirect_shift 2 (replicate 4096 7) = Inr 0 \<and>
   mul_chain_bench 2 (replicate 4096 7) = Inr 0 \<and> mul_chain4_bench 2 (replicate 4096 7) = Inr 0 \<and>
   sum_halves_bench 2 (replicate 4096 7) = Inr 0"
  using bench_kernels_return_zero [of "replicate 4096 7" 2] by simp

section \<open>Properties of the linked lists\<close>

text \<open>
  \<^verbatim>\<open>makeList(NODE_COUNT)\<close> appends six nodes to the heap: the five of the array, of which
  the first four become the second to fifth node of the list and the last stays unused,
  and the first node of the list, with value 1.
\<close>

lemma rep5: "replicate 5 z = [z, z, z, z, z]"
  by (simp add: eval_nat_numeral)

lemma makeList_NODE_COUNT:
  "makeList NODE_COUNT h = Inr
     (h @ [\<lparr>node_value = 0, node_next = Some (length h + 1)\<rparr>,
           \<lparr>node_value = 0, node_next = Some (length h + 2)\<rparr>,
           \<lparr>node_value = 0, node_next = Some (length h + 3)\<rparr>,
           \<lparr>node_value = 0, node_next = None\<rparr>,
           \<lparr>node_value = 0, node_next = None\<rparr>,
           \<lparr>node_value = 1, node_next = Some (length h)\<rparr>],
      \<lparr>head_size = 5, head_first = Some (length h + 5)\<rparr>)"
  by (simp add: makeList_def NODE_COUNT_def new_array_def new_node_def rep5 makeList_loop.simps
      nth_append list_update_append Let_def numeral_2_eq_2 numeral_3_eq_3)

lemma sum_counter_loop_frame:
  "sum_counter_loop h l i cur s = Inr r \<Longrightarrow> sum_counter_loop (h @ h') l i cur s = Inr r"
proof (induction h l i cur s rule: sum_counter_loop.induct)
  case (1 h l i cur s)
  show ?case
  proof (cases "i < head_size l")
    case False
    with "1.prems" show ?thesis
      by (simp add: sum_counter_loop.simps [of _ l i])
  next
    case True
    with "1.prems" obtain a where a: "cur = Some a" "a < length h"
      and rec: "sum_counter_loop h l (i + 1) (node_next (h ! a)) (s + node_value (h ! a)) = Inr r"
      by (subst (asm) sum_counter_loop.simps) (auto split: option.splits if_splits)
    from "1.IH" [OF True a rec]
    show ?thesis using True a
      by (subst sum_counter_loop.simps) (simp add: nth_append)
  qed
qed

lemma sum_sentinel_loop_frame:
  assumes "sum_sentinel_loop h cur s = Some (Inr r)"
  shows "sum_sentinel_loop (h @ h') cur s = Some (Inr r)"
proof -
  have "\<forall>r'. Inr r = (Inr r' :: error + u32) \<longrightarrow> sum_sentinel_loop (h @ h') cur s = Some (Inr r')"
  proof (rule sum_sentinel_loop.raw_induct
      [where P = "\<lambda>h cur s y. \<forall>r'. y = Inr r' \<longrightarrow> sum_sentinel_loop (h @ h') cur s = Some (Inr r')",
        OF _ assms])
    fix f :: "heap \<Rightarrow> ptr \<Rightarrow> u32 \<Rightarrow> (error + u32) option" and h cur s y
    assume IH: "\<And>h cur s y. f h cur s = Some y \<Longrightarrow>
        \<forall>r'. y = Inr r' \<longrightarrow> sum_sentinel_loop (h @ h') cur s = Some (Inr r')"
      and body: "(case cur of None \<Rightarrow> Some (Inr s)
         | Some a \<Rightarrow> if a < length h then f h (node_next (h ! a)) (s + node_value (h ! a))
                      else Some (Inl OutOfBounds)) = Some y"
    show "\<forall>r'. y = Inr r' \<longrightarrow> sum_sentinel_loop (h @ h') cur s = Some (Inr r')"
    proof (intro allI impI)
      fix r' assume y: "y = Inr r'"
      show "sum_sentinel_loop (h @ h') cur s = Some (Inr r')"
      proof (cases cur)
        case None
        with body y show ?thesis by (subst sum_sentinel_loop.simps) simp
      next
        case (Some a)
        with body y have a: "a < length h"
          and "f h (node_next (h ! a)) (s + node_value (h ! a)) = Some y"
          by (auto split: if_splits)
        with IH y have "sum_sentinel_loop (h @ h') (node_next (h ! a)) (s + node_value (h ! a))
            = Some (Inr r')" by blast
        with Some a show ?thesis by (subst sum_sentinel_loop.simps) (simp add: nth_append)
      qed
    qed
  qed
  then show ?thesis by simp
qed

lemma sum_counter_frame:
  assumes "sum_counter h l = Some (Inr r)"
  shows "sum_counter (h @ h') l = Some (Inr r)"
proof -
  from assms obtain x where x: "sum_counter_loop h l 0 (head_first l) 0 = Inr x" and r: "r = scast x"
    by (cases "sum_counter_loop h l 0 (head_first l) 0") (auto simp: sum_counter_def)
  from x have "sum_counter_loop (h @ h') l 0 (head_first l) 0 = Inr x"
    by (rule sum_counter_loop_frame)
  then show ?thesis by (simp add: sum_counter_def r)
qed

lemma sum_sentinel_frame:
  assumes "sum_sentinel h l = Some (Inr r)"
  shows "sum_sentinel (h @ h') l = Some (Inr r)"
proof -
  from assms obtain x where x: "sum_sentinel_loop h (head_first l) 0 = Some (Inr x)" and r: "r = scast x"
    by (cases "sum_sentinel_loop h (head_first l) 0"; cases "the (sum_sentinel_loop h (head_first l) 0)")
      (auto simp: sum_sentinel_def)
  from x have "sum_sentinel_loop (h @ h') (head_first l) 0 = Some (Inr x)"
    by (rule sum_sentinel_loop_frame)
  then show ?thesis by (simp add: sum_sentinel_def r)
qed

lemma new_list_sums:
  assumes "makeList NODE_COUNT h = Inr (h', l)"
  shows "sum_counter h' l = Some (Inr 1) \<and> sum_sentinel h' l = Some (Inr 1)"
proof -
  from assms have h': "h' = h @ [\<lparr>node_value = 0, node_next = Some (length h + 1)\<rparr>,
           \<lparr>node_value = 0, node_next = Some (length h + 2)\<rparr>,
           \<lparr>node_value = 0, node_next = Some (length h + 3)\<rparr>,
           \<lparr>node_value = 0, node_next = None\<rparr>,
           \<lparr>node_value = 0, node_next = None\<rparr>,
           \<lparr>node_value = 1, node_next = Some (length h)\<rparr>]"
    and l: "l = \<lparr>head_size = 5, head_first = Some (length h + 5)\<rparr>"
    by (simp_all add: makeList_NODE_COUNT)
  have "sum_counter_loop h' l 0 (head_first l) 0 = Inr 1"
    unfolding h' l by (simp add: sum_counter_loop.simps nth_append)
  moreover have "sum_sentinel_loop h' (head_first l) 0 = Some (Inr 1)"
    unfolding h' l by (simp add: sum_sentinel_loop.simps nth_append)
  ultimately show ?thesis by (simp add: sum_counter_def sum_sentinel_def)
qed

lemma makeList_extends: "makeList NODE_COUNT h = Inr (h', l) \<Longrightarrow> \<exists>h''. h' = h @ h''"
  by (auto simp: makeList_NODE_COUNT)

lemma makeLists_loop_sums:
  "LIST_COUNT - i = n \<Longrightarrow>
   \<forall>l \<in> set ls0. sum_counter h0 l = Some (Inr 1) \<and> sum_sentinel h0 l = Some (Inr 1) \<Longrightarrow>
   \<exists>h ls. makeLists_loop LIST_COUNT i h0 ls0 = Inr (h, ls) \<and> length ls = length ls0 + n \<and>
     (\<forall>l \<in> set ls. sum_counter h l = Some (Inr 1) \<and> sum_sentinel h l = Some (Inr 1))"
proof (induction n arbitrary: i h0 ls0)
  case 0
  then show ?case by (subst makeLists_loop.simps) simp
next
  case (Suc n)
  then have lt: "i < LIST_COUNT" by simp
  obtain h1 l1 where m: "makeList NODE_COUNT h0 = Inr (h1, l1)"
    by (simp add: makeList_NODE_COUNT)
  from makeList_extends [OF m] obtain h'' where h1: "h1 = h0 @ h''" by blast
  have "\<forall>l \<in> set (ls0 @ [l1]). sum_counter h1 l = Some (Inr 1) \<and> sum_sentinel h1 l = Some (Inr 1)"
    using Suc.prems(2) new_list_sums [OF m]
    by (auto simp: h1 intro: sum_counter_frame sum_sentinel_frame)
  moreover have "LIST_COUNT - (i + 1) = n" using Suc.prems(1) by simp
  ultimately obtain h ls where "makeLists_loop LIST_COUNT (i + 1) h1 (ls0 @ [l1]) = Inr (h, ls)"
    and "length ls = length (ls0 @ [l1]) + n"
    and "\<forall>l \<in> set ls. sum_counter h l = Some (Inr 1) \<and> sum_sentinel h l = Some (Inr 1)"
    using Suc.IH by blast
  then show ?case using lt m
    by (subst makeLists_loop.simps) simp
qed

lemma ucast_down_plus: "(ucast ((a :: u64) + b) :: u32) = ucast a + ucast b"
proof -
  have d: "(2 :: int) ^ 32 dvd 2 ^ 64" by (rule le_imp_power_dvd) simp
  have "uint (ucast (a + b) :: u32) = (uint a + uint b) mod 2 ^ 32"
    using mod_mod_cancel [OF d, of "uint a + uint b"]
    by (simp add: unsigned_ucast_eq uint_word_ariths take_bit_eq_mod)
  moreover have "uint (ucast a + ucast b :: u32) = (uint a + uint b) mod 2 ^ 32"
    by (simp add: unsigned_ucast_eq uint_word_ariths take_bit_eq_mod mod_simps)
  ultimately show ?thesis by (simp add: word_uint_eq_iff)
qed

lemma ucast_scast_id: "(ucast (scast (s :: u32) :: u64) :: u32) = s"
  by (rule bit_word_eqI) (auto simp: bit_simps)

lemma sum_step: "ucast ((scast (s :: u32) :: u64) + r) = s + ucast r"
  by (simp add: ucast_down_plus ucast_scast_id)

lemma linkedlist_sum_inner_ones:
  "LIST_COUNT - j = n \<Longrightarrow> LIST_COUNT \<le> length ls \<Longrightarrow>
   \<forall>l \<in> set ls. SUM_IMPL h l = Some (Inr 1) \<Longrightarrow>
   linkedlist_sum_inner SUM_IMPL LIST_COUNT h ls j s = Some (Inr (s + of_nat n))"
proof (induction n arbitrary: j s)
  case 0
  then show ?case by (subst linkedlist_sum_inner.simps) simp
next
  case (Suc n)
  then have lt: "j < LIST_COUNT" "j < length ls" by simp_all
  then have one: "SUM_IMPL h (ls ! j) = Some (Inr 1)" using Suc.prems(3) by simp
  have "linkedlist_sum_inner SUM_IMPL LIST_COUNT h ls (j + 1) (s + 1) = Some (Inr (s + 1 + of_nat n))"
    using Suc.prems by (intro Suc.IH) simp_all
  moreover have "ucast ((scast s :: u64) + 1) = s + 1"
    by (simp add: sum_step)
  moreover have "s + of_nat (Suc n) = s + 1 + of_nat n"
    by simp
  ultimately show ?case using lt one
    by (subst linkedlist_sum_inner.simps) (simp del: of_nat_Suc)
qed

lemma linkedlist_sum_loop_once:
  "linkedlist_sum_inner SUM_IMPL LIST_COUNT h ls 0 0 = Some (Inr r) \<Longrightarrow>
   linkedlist_sum_loop SUM_IMPL LIST_COUNT h ls 1 0 = Some (Inr r)"
  by (simp add: linkedlist_sum_loop.simps [of _ _ _ _ 1] linkedlist_sum_loop.simps [of _ _ _ _ 0])

lemma sint_of_nat_small: "n < 2 ^ 31 \<Longrightarrow> sint (of_nat n :: u32) = int n"
  by (simp add: signed_of_nat signed_take_bit_int_eq_self)

text \<open>
  Claim C4. With the lists that \<^verbatim>\<open>makeLists\<close> builds (\<open>LIST_COUNT\<close> lists of \<open>NODE_COUNT = 5\<close>
  nodes each, the first node with value 1, the others with value 0), the counter-terminated
  kernel and the sentinel-terminated kernel, each invoked with iteration count 1, return
  the same value: the number of lists times 1, the value of the distinct node.
  (\<open>LIST_COUNT\<close> is a constant that fits an \<^verbatim>\<open>int\<close>.)
\<close>

theorem linkedlist_counter_eq_sentinel:
  "LIST_COUNT < 2 ^ 31 \<Longrightarrow>
   \<exists>globals. makeLists LIST_COUNT = Inr globals \<and>
     linkedlist_counter LIST_COUNT globals 1 = Some (Inr (int LIST_COUNT * 1)) \<and>
     linkedlist_sentinel LIST_COUNT globals 1 = Some (Inr (int LIST_COUNT * 1))"
proof -
  assume small: "LIST_COUNT < 2 ^ 31"
  obtain h ls where m: "makeLists_loop LIST_COUNT 0 [] [] = Inr (h, ls)"
    and len: "length ls = LIST_COUNT"
    and ones: "\<forall>l \<in> set ls. sum_counter h l = Some (Inr 1) \<and> sum_sentinel h l = Some (Inr 1)"
    using makeLists_loop_sums [of LIST_COUNT 0 LIST_COUNT "[]" "[]"] by auto
  have "linkedlist_sum_inner sum_counter LIST_COUNT h ls 0 0 = Some (Inr (0 + of_nat LIST_COUNT))"
    using len ones by (intro linkedlist_sum_inner_ones) simp_all
  then have c: "linkedlist_sum_loop sum_counter LIST_COUNT h ls 1 0 = Some (Inr (of_nat LIST_COUNT))"
    by (intro linkedlist_sum_loop_once) simp
  have "linkedlist_sum_inner sum_sentinel LIST_COUNT h ls 0 0 = Some (Inr (0 + of_nat LIST_COUNT))"
    using len ones by (intro linkedlist_sum_inner_ones) simp_all
  then have s: "linkedlist_sum_loop sum_sentinel LIST_COUNT h ls 1 0 = Some (Inr (of_nat LIST_COUNT))"
    by (intro linkedlist_sum_loop_once) simp
  show ?thesis
    using m c s sint_of_nat_small [OF small]
    by (intro exI [of _ "(h, ls)"])
      (simp add: makeLists_def linkedlist_counter_def linkedlist_sentinel_def linkedlist_sum_def)
qed

theorem linkedlist_counter_eq_sentinel_witness:
  "(3 :: nat) < 2 ^ 31 \<and>
   map_sum id (\<lambda>globals. (linkedlist_counter 3 globals 1, linkedlist_sentinel 3 globals 1))
     (makeLists 3) = Inr (Some (Inr 3), Some (Inr 3))"
  using linkedlist_counter_eq_sentinel [of 3] by auto

end
